theory Spec2Isabelle
  imports Complex_Main "HOL-Library.Sublist" "HOL-Library.Char_ord" "HOL-Library.List_Lexorder"
begin

section \<open>Text values\<close>

text \<open>
  The pipeline (\<^verbatim>\<open>src/src/mainprocess.py\<close>) inspects comment texts character by
  character: \<^verbatim>\<open>\s\<close>, \<^verbatim>\<open>\S\<close> and \<^verbatim>\<open>str.strip()\<close> classify single code points.
  A Python \<^verbatim>\<open>str\<close> is a sequence of Unicode code points, so a comment text is modelled
  as a list of code points (\<open>ustring\<close>). Identifiers, labels and file names are only
  concatenated and compared; they are plain \<open>string\<close>s.
\<close>

type_synonym ustring = "nat list"

definition ustr :: "string \<Rightarrow> ustring" where
  "ustr s = map of_char s"

text \<open>
  The code points that Python 3 treats as white space, both in \<^verbatim>\<open>re\<close> (\<^verbatim>\<open>\s\<close> on a
  \<^verbatim>\<open>str\<close> pattern) and in \<^verbatim>\<open>str.strip()\<close>.
\<close>

definition is_space :: "nat \<Rightarrow> bool" where
  "is_space c \<longleftrightarrow>
     (0x09 \<le> c \<and> c \<le> 0x0D) \<or> (0x1C \<le> c \<and> c \<le> 0x20) \<or> c = 0x85 \<or> c = 0xA0 \<or>
     c = 0x1680 \<or> (0x2000 \<le> c \<and> c \<le> 0x200A) \<or> c = 0x2028 \<or> c = 0x2029 \<or>
     c = 0x202F \<or> c = 0x205F \<or> c = 0x3000"

subsection \<open>Regular-expression substitution\<close>

text \<open>
  A pattern is given by its matcher: \<open>m s\<close> is the length of the match that starts at
  the head of \<open>s\<close>, if there is one. \<open>nonspace_run\<close> is the greedy \<^verbatim>\<open>\S*\<close>.
  \<open>match_url\<close> is \<^verbatim>\<open>http\S+|www\.\S+\<close>, \<open>match_entity\<close> is \<^verbatim>\<open>&amp;|&lt;|&gt;\<close> and
  \<open>match_spaces\<close> is \<^verbatim>\<open>\s+\<close>. None of them matches the empty string.
\<close>

definition nonspace_run :: "ustring \<Rightarrow> nat" where
  "nonspace_run s = length (takeWhile (\<lambda>c. \<not> is_space c) s)"

definition match_url :: "ustring \<Rightarrow> nat option" where
  "match_url s =
     (if prefix (ustr ''http'') s \<and> 1 \<le> nonspace_run (drop 4 s)
        then Some (4 + nonspace_run (drop 4 s))
      else if prefix (ustr ''www.'') s \<and> 1 \<le> nonspace_run (drop 4 s)
        then Some (4 + nonspace_run (drop 4 s))
      else None)"

definition match_entity :: "ustring \<Rightarrow> nat option" where
  "match_entity s =
     (if prefix (ustr ''&amp;'') s then Some 5
      else if prefix (ustr ''&lt;'') s then Some 4
      else if prefix (ustr ''&gt;'') s then Some 4
      else None)"

definition match_spaces :: "ustring \<Rightarrow> nat option" where
  "match_spaces s =
     (let n = length (takeWhile is_space s) in if 1 \<le> n then Some n else None)"

text \<open>
  \<^verbatim>\<open>re.sub(pattern, repl, t)\<close>: scan from the left; where the pattern matches, emit the
  replacement and go on behind the match; elsewhere copy one character.
\<close>

function re_sub :: "(ustring \<Rightarrow> nat option) \<Rightarrow> ustring \<Rightarrow> ustring \<Rightarrow> ustring" where
  "re_sub m repl [] = []"
| "re_sub m repl (c # cs) =
     (case m (c # cs) of
        None \<Rightarrow> c # re_sub m repl cs
      | Some n \<Rightarrow>
          if n = 0 then c # re_sub m repl cs
          else repl @ re_sub m repl (drop (n - 1) cs))"
  by pat_completeness auto
termination
  by (relation "measure (\<lambda>(m, repl, s). length s)") auto

subsection \<open>strip and clean_text\<close>

definition lstrip :: "ustring \<Rightarrow> ustring" where
  "lstrip s = dropWhile is_space s"

definition rstrip :: "ustring \<Rightarrow> ustring" where
  "rstrip s = rev (dropWhile is_space (rev s))"

definition strip :: "ustring \<Rightarrow> ustring" where
  "strip s = rstrip (lstrip s)"

definition clean_text :: "ustring \<Rightarrow> ustring" where
  "clean_text t =
     (let t1 = re_sub match_url (ustr '' '') t;
          t2 = re_sub match_entity (ustr '' '') t1;
          t3 = strip (re_sub match_spaces (ustr '' '') t2)
      in t3)"

text \<open>The text before the final \<^verbatim>\<open>strip()\<close>, with the replacement written as a code point.\<close>

definition collapsed :: "ustring \<Rightarrow> ustring" where
  "collapsed t = re_sub match_spaces [32] (re_sub match_entity [32] (re_sub match_url [32] t))"

section \<open>Exceptions\<close>

text \<open>
  Every exception of the model is a subclass of Python's \<^verbatim>\<open>Exception\<close>, so
  \<^verbatim>\<open>except Exception\<close> catches each of them and \<^verbatim>\<open>except HttpError\<close> only the first.
  A computation that may raise has a result of type \<open>exn + 'a\<close>.
\<close>

datatype exn = HttpError | LangDetectException | RuntimeError | ValueError | OtherException

definition try_except :: "exn + 'a \<Rightarrow> (exn \<Rightarrow> bool) \<Rightarrow> exn + 'a \<Rightarrow> exn + 'a" where
  "try_except body caught handler =
     (case body of
        Inr v \<Rightarrow> Inr v
      | Inl e \<Rightarrow> if caught e then handler else Inl e)"

definition is_Exception :: "exn \<Rightarrow> bool" where
  "is_Exception e = True"

subsection \<open>safe_lang\<close>

text \<open>
  The language detector (\<^verbatim>\<open>langdetect.detect\<close>) is a parameter: it returns a
  language code or raises.
\<close>

definition safe_lang :: "(ustring \<Rightarrow> exn + string) \<Rightarrow> ustring \<Rightarrow> exn + string" where
  "safe_lang detect s =
     try_except (if strip s \<noteq> [] then detect s else Inr ''unknown'')
       is_Exception (Inr ''unknown'')"

section \<open>Fetching comments\<close>

subsection \<open>The API's response and the comment records built from it\<close>

text \<open>
  The JSON that \<^verbatim>\<open>commentThreads().list(...).execute()\<close> returns, as far as
  \<open>fetch_comments\<close> reads it. A key that may be absent is an \<open>option\<close>.
  \<open>topLevelComment\<close> stands for \<^verbatim>\<open>item.get("snippet", {}).get("topLevelComment", {})\<close>
  and \<open>replies\<close> for the list \<^verbatim>\<open>item["replies"].get("comments", [])\<close>, which is read
  only when \<^verbatim>\<open>item.get("replies")\<close> is truthy (\<open>None\<close> when it is not).
\<close>

record snippet =
  snippet_id :: "string option"
  authorDisplayName :: "string option"
  textDisplay :: "ustring option"
  likeCount :: "int option"
  publishedAt :: "string option"

record comment_resource =
  resource_id :: "string option"
  resource_snippet :: "snippet option"

record thread =
  topLevelComment :: "comment_resource option"
  replies :: "comment_resource list option"

record response =
  items :: "thread list option"
  nextPageToken :: "string option"

text \<open>The dictionary that \<open>fetch_comments\<close> appends for each comment and reply.\<close>

record comment_rec =
  comment_id :: "string option"
  author :: "string option"
  comment :: "ustring option"
  likes :: int
  published :: "string option"
  video_id :: string
  parent_id :: "string option"
  raw :: snippet

text \<open>Truthiness of an optional string, and Python's \<^verbatim>\<open>a or b\<close> on two of them.\<close>

definition truthy :: "string option \<Rightarrow> bool" where
  "truthy x \<longleftrightarrow> x \<noteq> None \<and> x \<noteq> Some []"

definition py_or :: "string option \<Rightarrow> string option \<Rightarrow> string option" where
  "py_or a b = (if truthy a then a else b)"

definition empty_snippet :: snippet where
  "empty_snippet =
     \<lparr>snippet_id = None, authorDisplayName = None, textDisplay = None,
      likeCount = None, publishedAt = None\<rparr>"

definition empty_resource :: comment_resource where
  "empty_resource = \<lparr>resource_id = None, resource_snippet = None\<rparr>"

definition make_comment :: "string \<Rightarrow> string option \<Rightarrow> comment_resource \<Rightarrow> comment_rec" where
  "make_comment vid parent r =
     (let snip = (case resource_snippet r of None \<Rightarrow> empty_snippet | Some sn \<Rightarrow> sn)
      in \<lparr>comment_id = py_or (resource_id r) (snippet_id snip),
          author = authorDisplayName snip,
          comment = textDisplay snip,
          likes = (case likeCount snip of None \<Rightarrow> 0 | Some n \<Rightarrow> n),
          published = publishedAt snip,
          video_id = vid,
          parent_id = parent,
          raw = snip\<rparr>)"

definition thread_comments :: "string \<Rightarrow> thread \<Rightarrow> comment_rec list" where
  "thread_comments vid item =
     (let tlc = (case topLevelComment item of None \<Rightarrow> empty_resource | Some r \<Rightarrow> r);
          top = make_comment vid None tlc
      in top #
         (case replies item of
            None \<Rightarrow> []
          | Some rs \<Rightarrow> map (make_comment vid (comment_id top)) rs))"

definition page_comments :: "string \<Rightarrow> response \<Rightarrow> comment_rec list" where
  "page_comments vid resp =
     concat (map (thread_comments vid) (case items resp of None \<Rightarrow> [] | Some its \<Rightarrow> its))"

subsection \<open>The API as the environment, and what the loop does to it\<close>

text \<open>
  The platform is outside the program. Its \<open>n\<close>-th call (counted from 0 over the whole
  run) with a video id and a page token returns a response or raises. Requests and
  sleeps are recorded in a trace, in the order in which the code performs them; sleeps
  are in milliseconds.
\<close>

datatype outcome = Returns response | Raises exn

type_synonym api = "nat \<Rightarrow> string \<Rightarrow> string option \<Rightarrow> outcome"

datatype event = Request "string option" | Sleep nat

fun is_request :: "event \<Rightarrow> bool" where
  "is_request (Request tok) = True"
| "is_request (Sleep ms) = False"

definition n_requests :: "event list \<Rightarrow> nat" where
  "n_requests tr = length (filter is_request tr)"

text \<open>
  The \<^verbatim>\<open>try\<close> statement at the head of the loop: one call; on \<^verbatim>\<open>HttpError\<close> a
  sleep of five seconds and a second call, whose every exception ends the loop
  (\<open>Failed\<close>). Any other exception of the first call is not caught (\<open>Raised\<close>).
\<close>

datatype attempt = Got response | Failed | Raised exn

definition request_page :: "api \<Rightarrow> string \<Rightarrow> string option \<Rightarrow> event list \<Rightarrow> attempt \<times> event list" where
  "request_page yt vid tok tr =
     (case yt (n_requests tr) vid tok of
        Returns resp \<Rightarrow> (Got resp, tr @ [Request tok])
      | Raises e \<Rightarrow>
          if e = HttpError then
            (let tr1 = tr @ [Request tok, Sleep 5000] in
             case yt (n_requests tr1) vid tok of
               Returns resp \<Rightarrow> (Got resp, tr1 @ [Request tok])
             | Raises e2 \<Rightarrow> (Failed, tr1 @ [Request tok]))
          else (Raised e, tr @ [Request tok]))"

record fetch_state =
  comments :: "comment_rec list"
  token :: "string option"
  page :: nat
  trace :: "event list"

text \<open>\<^verbatim>\<open>max_pages and page >= max_pages\<close>, for \<^verbatim>\<open>max_pages: Optional[int]\<close>.\<close>

definition page_limit :: "int option \<Rightarrow> nat \<Rightarrow> bool" where
  "page_limit max_pages p =
     (case max_pages of None \<Rightarrow> False | Some n \<Rightarrow> n \<noteq> 0 \<and> n \<le> int p)"

text \<open>One turn of \<^verbatim>\<open>while True\<close>: how it leaves the loop, or the state of the next turn.\<close>

datatype control = Break fetch_state | Continue fetch_state | Raise exn fetch_state

definition loop_body :: "api \<Rightarrow> string \<Rightarrow> int option \<Rightarrow> int \<Rightarrow> fetch_state \<Rightarrow> control" where
  "loop_body yt vid max_pages max_comments s =
     (case request_page yt vid (token s) (trace s) of
        (Raised e, tr) \<Rightarrow> Raise e (s\<lparr>trace := tr\<rparr>)
      | (Failed, tr) \<Rightarrow> Break (s\<lparr>trace := tr\<rparr>)
      | (Got resp, tr) \<Rightarrow>
          (let s1 = s\<lparr>comments := comments s @ page_comments vid resp,
                      page := page s + 1, trace := tr\<rparr>
           in if max_comments \<le> int (length (comments s1)) then Break s1
              else
                (let s2 = s1\<lparr>token := nextPageToken resp\<rparr>
                 in if \<not> truthy (token s2) \<or> page_limit max_pages (page s2) then Break s2
                    else Continue (s2\<lparr>trace := trace s2 @ [Sleep 100]\<rparr>))))"

text \<open>
  The loop may run for ever (a platform that always hands out a next page token and no
  comments): \<open>None\<close> is "does not return". The result is the state at the end of the
  loop, with the exception that left it, if one did.
\<close>

partial_function (option) fetch_loop ::
  "api \<Rightarrow> string \<Rightarrow> int option \<Rightarrow> int \<Rightarrow> fetch_state \<Rightarrow> (exn option \<times> fetch_state) option" where
  "fetch_loop yt vid max_pages max_comments s =
     (case loop_body yt vid max_pages max_comments s of
        Break s' \<Rightarrow> Some (None, s')
      | Raise e s' \<Rightarrow> Some (Some e, s')
      | Continue s' \<Rightarrow> fetch_loop yt vid max_pages max_comments s')"

definition initial_state :: fetch_state where
  "initial_state = \<lparr>comments = [], token = None, page = 0, trace = []\<rparr>"

text \<open>Python's \<^verbatim>\<open>xs[:k]\<close>; a negative \<open>k\<close> counts from the end.\<close>

definition slice_to :: "'a list \<Rightarrow> int \<Rightarrow> 'a list" where
  "slice_to xs k =
     (if 0 \<le> k then take (nat k) xs else take (nat (int (length xs) + k)) xs)"

definition fetch_comments ::
  "api \<Rightarrow> string \<Rightarrow> int option \<Rightarrow> int \<Rightarrow> (exn + comment_rec list) option" where
  "fetch_comments yt vid max_pages max_comments =
     (case fetch_loop yt vid max_pages max_comments initial_state of
        None \<Rightarrow> None
      | Some (Some e, s) \<Rightarrow> Some (Inl e)
      | Some (None, s) \<Rightarrow> Some (Inr (slice_to (comments s) max_comments)))"

declare fetch_loop.simps [code]

text \<open>
  The state at the head of turn \<open>n + 1\<close> of the loop, if the loop gets there, and
  whether a turn ends the loop.
\<close>

fun after_turns :: "api \<Rightarrow> string \<Rightarrow> int option \<Rightarrow> int \<Rightarrow> nat \<Rightarrow> fetch_state \<Rightarrow> fetch_state option" where
  "after_turns yt vid max_pages max_comments 0 s = Some s"
| "after_turns yt vid max_pages max_comments (Suc n) s =
     (case loop_body yt vid max_pages max_comments s of
        Continue s' \<Rightarrow> after_turns yt vid max_pages max_comments n s'
      | Break s' \<Rightarrow> None
      | Raise e s' \<Rightarrow> None)"

definition stops :: "control \<Rightarrow> bool" where
  "stops c = (case c of Continue s' \<Rightarrow> False | Break s' \<Rightarrow> True | Raise e s' \<Rightarrow> True)"

section \<open>The pipeline\<close>

subsection \<open>Sentiment label\<close>

text \<open>
  A Python float is modelled by the real number it denotes. (The double nearest to
  \<open>0.05\<close> is not \<open>1/20\<close>, but no double lies between the two, so the comparisons
  agree on every double.)
\<close>

definition vader_label :: "real \<Rightarrow> string" where
  "vader_label c =
     (if c \<ge> 0.05 then ''Positive''
      else if c \<le> - 0.05 then ''Negative''
      else ''Neutral'')"

subsection \<open>The table\<close>

text \<open>The dictionary that \<^verbatim>\<open>SentimentIntensityAnalyzer.polarity_scores\<close> returns.\<close>

record scores =
  neg :: real
  neu :: real
  pos :: real
  compound :: real

text \<open>
  One row of the processed table: the columns of the fetched record (\<open>base\<close>; its
  \<^verbatim>\<open>published\<close> column is overwritten by the parsed one, \<open>published_at\<close>, in
  nanoseconds, \<open>None\<close> for \<^verbatim>\<open>NaT\<close>) and the derived columns.
\<close>

record row =
  base :: comment_rec
  clean_comment :: ustring
  lang :: string
  published_at :: "int option"
  score :: scores
  sentiment_vader :: string

text \<open>The libraries and the platform that \<open>run\<close> calls, as parameters.\<close>

record env =
  youtube :: api
  detect :: "ustring \<Rightarrow> exn + string"
  polarity_scores :: "ustring \<Rightarrow> scores"
  to_datetime :: "string option \<Rightarrow> int option"
  lower :: "ustring \<Rightarrow> ustring"
  wordcloud_generate :: "ustring \<Rightarrow> exn option"
  utcnow_isoformat :: string

text \<open>\<^verbatim>\<open>drop_duplicates(subset=[key])\<close>: the first row of each key stays.\<close>

fun drop_duplicates_seen :: "('a \<Rightarrow> 'k) \<Rightarrow> 'k list \<Rightarrow> 'a list \<Rightarrow> 'a list" where
  "drop_duplicates_seen key seen [] = []"
| "drop_duplicates_seen key seen (x # xs) =
     (if key x \<in> set seen then drop_duplicates_seen key seen xs
      else x # drop_duplicates_seen key (key x # seen) xs)"

definition drop_duplicates :: "('a \<Rightarrow> 'k) \<Rightarrow> 'a list \<Rightarrow> 'a list" where
  "drop_duplicates key xs = drop_duplicates_seen key [] xs"

text \<open>
  The derived columns of one row, in the order in which \<open>run\<close> computes them. Every
  column is computed by \<^verbatim>\<open>apply\<close>, cell by cell, and the score columns are joined to the
  table by position after both indexes are reset, so the table is the list of its rows.
\<close>

definition annotate :: "env \<Rightarrow> comment_rec \<Rightarrow> exn + row" where
  "annotate e c =
     (let clean = clean_text (case comment c of None \<Rightarrow> [] | Some t \<Rightarrow> t)
      in case safe_lang (detect e) clean of
           Inl x \<Rightarrow> Inl x
         | Inr l \<Rightarrow>
             (let sc = polarity_scores e clean
              in Inr \<lparr>base = c, clean_comment = clean, lang = l,
                      published_at = to_datetime e (published c),
                      score = sc, sentiment_vader = vader_label (compound sc)\<rparr>))"

fun map_raise :: "('a \<Rightarrow> exn + 'b) \<Rightarrow> 'a list \<Rightarrow> exn + 'b list" where
  "map_raise f [] = Inr []"
| "map_raise f (x # xs) =
     (case f x of
        Inl e \<Rightarrow> Inl e
      | Inr y \<Rightarrow> (case map_raise f xs of Inl e \<Rightarrow> Inl e | Inr ys \<Rightarrow> Inr (y # ys)))"

definition process :: "env \<Rightarrow> comment_rec list \<Rightarrow> exn + row list" where
  "process e cs = map_raise (annotate e) (drop_duplicates comment_id cs)"

subsection \<open>Key figures\<close>

record kpi =
  kpi_video_id :: string
  kpi_timestamp :: string
  n_comments :: nat
  pct_negative :: real
  pct_positive :: real
  pct_neutral :: real
  avg_compound :: real

definition pct :: "string \<Rightarrow> row list \<Rightarrow> real" where
  "pct label df =
     real (length (filter (\<lambda>r. sentiment_vader r = label) df)) / real (length df) * 100"

definition make_kpi :: "env \<Rightarrow> string \<Rightarrow> row list \<Rightarrow> kpi" where
  "make_kpi e vid df =
     \<lparr>kpi_video_id = vid, kpi_timestamp = utcnow_isoformat e, n_comments = length df,
      pct_negative = pct ''Negative'' df, pct_positive = pct ''Positive'' df,
      pct_neutral = pct ''Neutral'' df,
      avg_compound = sum_list (map (\<lambda>r. compound (score r)) df) / real (length df)\<rparr>"

subsection \<open>Files\<close>

text \<open>
  A path is the list of its components below the repository's base directory. What is
  written is recorded as the list of (path, content) pairs, in the order of writing;
  the content is the value that is serialised, not its text.
\<close>

type_synonym path = "string list"

datatype content =
    RawJson "comment_rec list"
  | ProcessedCsv "row list"
  | KpiCsv kpi
  | WordcloudPng string ustring

definition RAW_DIR :: path where
  "RAW_DIR = [''data'', ''raw'']"

definition PROC_DIR :: path where
  "PROC_DIR = [''data'', ''processed'']"

definition OUT_DIR :: path where
  "OUT_DIR = [''data'', ''outputs'']"

text \<open>\<^verbatim>\<open>str\<close> of an integer, as an f-string formats it.\<close>

fun digits10 :: "nat \<Rightarrow> string" where
  "digits10 n =
     (if n < 10 then [''0123456789'' ! n]
      else digits10 (n div 10) @ [''0123456789'' ! (n mod 10)])"

definition str_int :: "int \<Rightarrow> string" where
  "str_int i = (if i < 0 then CHR ''-'' # digits10 (nat (- i)) else digits10 (nat i))"

definition raw_path :: "string \<Rightarrow> int \<Rightarrow> path" where
  "raw_path vid ts = RAW_DIR @ [''comments_'' @ vid @ ''_'' @ str_int ts @ ''.json'']"

definition processed_name :: "string \<Rightarrow> int \<Rightarrow> string" where
  "processed_name vid ts = ''processed_'' @ vid @ ''_'' @ str_int ts @ ''.csv''"

definition processed_path :: "string \<Rightarrow> int \<Rightarrow> path" where
  "processed_path vid ts = PROC_DIR @ [processed_name vid ts]"

definition kpi_path :: "string \<Rightarrow> int \<Rightarrow> path" where
  "kpi_path vid ts = OUT_DIR @ [''kpi_'' @ vid @ ''_'' @ str_int ts @ ''.csv'']"

definition wordcloud_path :: "string \<Rightarrow> string \<Rightarrow> int \<Rightarrow> path" where
  "wordcloud_path kind vid ts =
     OUT_DIR @ [''wordcloud_'' @ kind @ ''_'' @ vid @ ''_'' @ str_int ts @ ''.png'']"

subsection \<open>make_wordcloud\<close>

fun join :: "'a list \<Rightarrow> 'a list list \<Rightarrow> 'a list" where
  "join sep [] = []"
| "join sep [x] = x"
| "join sep (x # y # ys) = x @ sep @ join sep (y # ys)"

text \<open>
  The image is written only when there is text; \<^verbatim>\<open>WordCloud.generate\<close> may raise (it
  does when no word is left). The rendering parameters are not modelled: the image
  stands for the label and the text it was made from.
\<close>

definition make_wordcloud ::
  "env \<Rightarrow> ustring list \<Rightarrow> path \<Rightarrow> string \<Rightarrow> exn + (path \<times> content) list" where
  "make_wordcloud e text_series out_path sentiment_label =
     (let texts = map (lower e) (filter (\<lambda>t. 1 < length (strip t)) text_series);
          text = join (ustr '' '') texts
      in if strip text = [] then Inr []
         else (case wordcloud_generate e text of
                 Some x \<Rightarrow> Inl x
               | None \<Rightarrow> Inr [(out_path, WordcloudPng sentiment_label text)]))"

subsection \<open>run\<close>

text \<open>
  \<open>ts\<close> is the value of \<^verbatim>\<open>int(time.time())\<close> that \<open>run\<close> reads first. The result is
  the list of files written and the returned path or the exception raised; \<open>None\<close>
  when \<open>fetch_comments\<close> does not return.
\<close>

definition clean_comments_of :: "string \<Rightarrow> row list \<Rightarrow> ustring list" where
  "clean_comments_of label df = map clean_comment (filter (\<lambda>r. sentiment_vader r = label) df)"

definition run_files ::
  "env \<Rightarrow> string \<Rightarrow> int \<Rightarrow> comment_rec list \<Rightarrow> (path \<times> content) list \<times> (exn + path)" where
  "run_files e vid ts cs =
     (let w1 = [(raw_path vid ts, RawJson cs)]
      in case process e cs of
           Inl x \<Rightarrow> (w1, Inl x)
         | Inr df \<Rightarrow>
             (let out_csv = processed_path vid ts;
                  w2 = w1 @ [(out_csv, ProcessedCsv df)];
                  w3 = w2 @ [(kpi_path vid ts, KpiCsv (make_kpi e vid df))]
              in case make_wordcloud e (clean_comments_of ''Positive'' df)
                        (wordcloud_path ''positive'' vid ts) ''Positive'' of
                   Inl x \<Rightarrow> (w3, Inl x)
                 | Inr wp \<Rightarrow>
                     (case make_wordcloud e (clean_comments_of ''Negative'' df)
                             (wordcloud_path ''negative'' vid ts) ''Negative'' of
                        Inl x \<Rightarrow> (w3 @ wp, Inl x)
                      | Inr wn \<Rightarrow> (w3 @ wp @ wn, Inr out_csv))))"

definition run ::
  "env \<Rightarrow> string \<Rightarrow> int option \<Rightarrow> int \<Rightarrow> int \<Rightarrow>
   ((path \<times> content) list \<times> (exn + path)) option" where
  "run e vid max_pages max_comments ts =
     (case fetch_comments (youtube e) vid max_pages max_comments of
        None \<Rightarrow> None
      | Some (Inl x) \<Rightarrow> Some ([], Inl x)
      | Some (Inr cs) \<Rightarrow>
          if cs = [] then Some ([], Inl RuntimeError)
          else Some (run_files e vid ts cs))"

subsection \<open>Reading the list of written files\<close>

text \<open>The processed tables among the written files, and the kind of a written file.\<close>

fun processed_tables :: "(path \<times> content) list \<Rightarrow> row list list" where
  "processed_tables [] = []"
| "processed_tables ((p, ProcessedCsv df) # w) = df # processed_tables w"
| "processed_tables ((p, c) # w) = processed_tables w"

fun file_kind :: "content \<Rightarrow> string" where
  "file_kind (RawJson cs) = ''raw''"
| "file_kind (ProcessedCsv df) = ''processed''"
| "file_kind (KpiCsv k) = ''kpi''"
| "file_kind (WordcloudPng label text) = ''wordcloud '' @ label"

section \<open>The readers\<close>

text \<open>
  \<^verbatim>\<open>check_processed.py\<close>, \<^verbatim>\<open>analyze_eval.py\<close> (\<^verbatim>\<open>load_latest_processed\<close>) and
  \<^verbatim>\<open>app_streamlit.py\<close> (\<^verbatim>\<open>latest\<close>) choose their input in the same way:
  \<^verbatim>\<open>files = sorted(PROC.glob("processed_*.csv"))\<close>, then \<^verbatim>\<open>files[-1]\<close>. The argument is
  the listing of \<^verbatim>\<open>data/processed\<close>; \<open>None\<close> when no file matches (each reader then
  stops).
\<close>

definition is_processed_csv :: "string \<Rightarrow> bool" where
  "is_processed_csv name \<longleftrightarrow>
     prefix ''processed_'' name \<and> suffix ''.csv'' name \<and> 14 \<le> length name"

definition load_latest_processed :: "string list \<Rightarrow> string option" where
  "load_latest_processed listing =
     (let files = sort (filter is_processed_csv listing)
      in if files = [] then None else Some (last files))"

text \<open>
  Reading the chosen file. \<^verbatim>\<open>pd.read_csv\<close> is a parameter: given the file name and
  whether \<^verbatim>\<open>parse_dates=["published"]\<close> is passed, it returns a table or raises. The
  result comes with the list of the reads made, in order.
  \<^verbatim>\<open>check_processed.py\<close> and \<^verbatim>\<open>app_streamlit.py\<close> catch \<^verbatim>\<open>Exception\<close> on the read with
  date parsing and read again without it; the dashboard then converts the
  \<^verbatim>\<open>published\<close> column, if there is one, with \<^verbatim>\<open>to_datetime(errors="coerce")\<close>
  (\<open>fix_dates\<close>). \<^verbatim>\<open>analyze_eval.py\<close> reads once and catches nothing.
\<close>

definition check_processed_read ::
  "(string \<Rightarrow> bool \<Rightarrow> exn + 't) \<Rightarrow> string \<Rightarrow> (exn + 't) \<times> (string \<times> bool) list" where
  "check_processed_read read_csv f =
     (case read_csv f True of
        Inr df \<Rightarrow> (Inr df, [(f, True)])
      | Inl e \<Rightarrow>
          if is_Exception e then (read_csv f False, [(f, True), (f, False)])
          else (Inl e, [(f, True)]))"

definition app_streamlit_read ::
  "(string \<Rightarrow> bool \<Rightarrow> exn + 't) \<Rightarrow> ('t \<Rightarrow> 't) \<Rightarrow> string \<Rightarrow>
   (exn + 't) \<times> (string \<times> bool) list" where
  "app_streamlit_read read_csv fix_dates f =
     (case read_csv f True of
        Inr df \<Rightarrow> (Inr df, [(f, True)])
      | Inl e \<Rightarrow>
          if is_Exception e then
            (case read_csv f False of
               Inr df \<Rightarrow> Inr (fix_dates df)
             | Inl e2 \<Rightarrow> Inl e2,
             [(f, True), (f, False)])
          else (Inl e, [(f, True)]))"

definition analyze_eval_read ::
  "(string \<Rightarrow> bool \<Rightarrow> exn + 't) \<Rightarrow> string \<Rightarrow> (exn + 't) \<times> (string \<times> bool) list" where
  "analyze_eval_read read_csv f = (read_csv f True, [(f, True)])"

section \<open>Example environments\<close>

text \<open>
  A platform with two pages of comments (the second repeats a comment of the first),
  one that is down, one that goes down after the first page, and one whose client
  raises something other than \<^verbatim>\<open>HttpError\<close>.
\<close>

definition ex_snippet :: "string \<Rightarrow> snippet" where
  "ex_snippet t =
     \<lparr>snippet_id = None, authorDisplayName = Some ''ann'', textDisplay = Some (ustr t),
      likeCount = Some 3, publishedAt = Some ''2024-01-01T00:00:00Z''\<rparr>"

definition ex_thread :: "string \<Rightarrow> string \<Rightarrow> thread" where
  "ex_thread cid t =
     \<lparr>topLevelComment = Some \<lparr>resource_id = Some cid, resource_snippet = Some (ex_snippet t)\<rparr>,
      replies = None\<rparr>"

definition ex_page :: response where
  "ex_page = \<lparr>items = Some [ex_thread ''c1'' ''good''], nextPageToken = Some ''T''\<rparr>"

definition ex_last_page :: response where
  "ex_last_page =
     \<lparr>items = Some [ex_thread ''c2'' ''bad'', ex_thread ''c1'' ''good''], nextPageToken = None\<rparr>"

definition ex_api :: api where
  "ex_api n vid tok = (if tok = None then Returns ex_page else Returns ex_last_page)"

definition api_down :: api where
  "api_down n vid tok = Raises HttpError"

definition api_then_down :: api where
  "api_then_down n vid tok = (if n = 0 then Returns ex_page else Raises HttpError)"

definition api_broken :: api where
  "api_broken n vid tok = Raises OtherException"

text \<open>
  An analyzer that knows two texts, and environments around the platforms above: with
  both pages, with the platform down, and with the platform going down after one page.
\<close>

definition ex_scores :: "ustring \<Rightarrow> scores" where
  "ex_scores t =
     (if t = ustr ''good'' then \<lparr>neg = 0, neu = 0, pos = 1, compound = 0.4404\<rparr>
      else if t = ustr ''bad'' then \<lparr>neg = 1, neu = 0, pos = 0, compound = - 0.5423\<rparr>
      else \<lparr>neg = 0, neu = 1, pos = 0, compound = 0\<rparr>)"

definition ex_env :: env where
  "ex_env =
     \<lparr>youtube = ex_api, detect = (\<lambda>t. Inr ''en''), polarity_scores = ex_scores,
      to_datetime = (\<lambda>t. None), lower = (\<lambda>t. t), wordcloud_generate = (\<lambda>t. None),
      utcnow_isoformat = ''2023-11-14T22:13:20''\<rparr>"

definition ex_env_down :: env where
  "ex_env_down = ex_env\<lparr>youtube := api_down\<rparr>"

definition ex_env_short :: env where
  "ex_env_short = ex_env\<lparr>youtube := api_then_down, utcnow_isoformat := ''2023-11-14T22:13:21''\<rparr>"

text \<open>The records and rows that these environments produce.\<close>

definition ex_comment :: "string \<Rightarrow> string \<Rightarrow> comment_rec" where
  "ex_comment cid t =
     make_comment ''v'' None \<lparr>resource_id = Some cid, resource_snippet = Some (ex_snippet t)\<rparr>"

definition ex_row :: "string \<Rightarrow> string \<Rightarrow> row" where
  "ex_row cid t =
     \<lparr>base = ex_comment cid t, clean_comment = ustr t, lang = ''en'', published_at = None,
      score = ex_scores (ustr t), sentiment_vader = vader_label (compound (ex_scores (ustr t)))\<rparr>"

text \<open>A processed file whose dates cannot be parsed, and one that cannot be read at all.\<close>

definition ex_read_csv :: "string \<Rightarrow> bool \<Rightarrow> exn + row list" where
  "ex_read_csv f parse_dates =
     (if parse_dates then Inl ValueError else Inr [ex_row ''c1'' ''good''])"

definition ex_read_fails :: "string \<Rightarrow> bool \<Rightarrow> exn + row list" where
  "ex_read_fails f parse_dates = Inl OtherException"

section \<open>Properties of the text functions\<close>

lemma space_32: "is_space 32"
  by (simp add: is_space_def)

lemma ustr_space: "ustr '' '' = [32]"
  by (simp add: ustr_def)

lemma ustr_http: "ustr ''http'' = [104, 116, 116, 112]"
  and ustr_www: "ustr ''www.'' = [119, 119, 119, 46]"
  and ustr_amp: "ustr ''&amp;'' = [38, 97, 109, 112, 59]"
  and ustr_lt: "ustr ''&lt;'' = [38, 108, 116, 59]"
  and ustr_gt: "ustr ''&gt;'' = [38, 103, 116, 59]"
  by (simp_all add: ustr_def)

lemmas text_eval =
  clean_text_def ustr_def match_url_def match_entity_def match_spaces_def strip_def
  lstrip_def rstrip_def is_space_def nonspace_run_def

lemma sublist_trans: "sublist xs ys \<Longrightarrow> sublist ys zs \<Longrightarrow> sublist xs zs"
proof -
  assume "sublist xs ys" "sublist ys zs"
  then obtain a b c d where "ys = a @ xs @ b" "zs = c @ ys @ d"
    by (auto simp: sublist_def)
  then have "zs = (c @ a) @ xs @ (b @ d)" by simp
  then show ?thesis unfolding sublist_def by blast
qed

subsection \<open>What a substitution by one space keeps and removes\<close>

text \<open>
  A run of non-space characters in the output of a substitution by a single space was a
  run of the input: the substitution never joins two pieces without a space between.
\<close>

lemma prefix_re_sub:
  "\<forall>c\<in>set p. \<not> is_space c \<Longrightarrow> prefix p (re_sub m [32] s) \<Longrightarrow> prefix p s"
proof (induction s arbitrary: p)
  case Nil
  then show ?case by simp
next
  case (Cons c cs)
  show ?case
  proof (cases p)
    case Nil
    then show ?thesis by simp
  next
    case (Cons a p')
    with Cons.prems(1) have a: "\<not> is_space a" and p': "\<forall>c\<in>set p'. \<not> is_space c"
      by simp_all
    from a space_32 have ne: "a \<noteq> 32" by auto
    from Cons.prems(2) Cons ne have "a = c \<and> prefix p' (re_sub m [32] cs)"
      by (auto split: option.splits if_splits)
    with Cons.IH [OF p'] Cons show ?thesis by simp
  qed
qed

lemma sublist_re_sub_aux:
  "repl = [32] \<Longrightarrow> \<forall>c\<in>set p. \<not> is_space c \<Longrightarrow> sublist p (re_sub m repl s) \<Longrightarrow>
   sublist p s"
proof (induction m repl s rule: re_sub.induct)
  case (1 m repl)
  then show ?case by simp
next
  case (2 m repl c cs)
  note r = \<open>repl = [32]\<close>
  note ns = \<open>\<forall>c\<in>set p. \<not> is_space c\<close>
  note sub = \<open>sublist p (re_sub m repl (c # cs))\<close>
  show ?case
  proof (cases "\<exists>n. m (c # cs) = Some (Suc n)")
    case True
    then obtain n where n: "m (c # cs) = Some (Suc n)" by blast
    with sub r have "sublist p (32 # re_sub m repl (drop n cs))" by simp
    then have "prefix p (32 # re_sub m repl (drop n cs)) \<or>
               sublist p (re_sub m repl (drop n cs))"
      by (simp add: sublist_Cons_right)
    then show ?thesis
    proof
      assume "prefix p (32 # re_sub m repl (drop n cs))"
      with ns space_32 have "p = []" by (cases p) auto
      then show ?thesis by simp
    next
      assume "sublist p (re_sub m repl (drop n cs))"
      with "2.IH"(3) [OF n _ r ns] have "sublist p (drop n cs)" by simp
      then have "sublist p cs" by (rule sublist_trans) simp
      then show ?thesis by (simp add: sublist_Cons_right)
    qed
  next
    case False
    then have eq: "re_sub m repl (c # cs) = c # re_sub m repl cs"
      by (cases "m (c # cs)") (auto simp: gr0_conv_Suc)
    with sub have "prefix p (c # re_sub m repl cs) \<or> sublist p (re_sub m repl cs)"
      by (simp add: sublist_Cons_right)
    then show ?thesis
    proof
      assume "prefix p (c # re_sub m repl cs)"
      with eq r have "prefix p (re_sub m [32] (c # cs))" by simp
      with ns have "prefix p (c # cs)" by (rule prefix_re_sub)
      then show ?thesis by simp
    next
      assume a: "sublist p (re_sub m repl cs)"
      have "sublist p cs"
      proof (cases "m (c # cs)")
        case None
        from "2.IH"(1) [OF None r ns a] show ?thesis .
      next
        case (Some k)
        with False have "k = 0" by (cases k) auto
        from "2.IH"(2) [OF Some this r ns a] show ?thesis .
      qed
      then show ?thesis by (simp add: sublist_Cons_right)
    qed
  qed
qed

lemma sublist_re_sub:
  "\<forall>c\<in>set p. \<not> is_space c \<Longrightarrow> sublist p (re_sub m [32] s) \<Longrightarrow> sublist p s"
  by (rule sublist_re_sub_aux [OF refl])

text \<open>A space-free pattern that the matcher recognises wherever it starts does not survive.\<close>

lemma re_sub_removes_aux:
  assumes pat: "p \<noteq> []" "\<forall>c\<in>set p. \<not> is_space c"
  shows "\<forall>t. prefix p t \<longrightarrow> (\<exists>n. m t = Some (Suc n)) \<Longrightarrow> repl = [32] \<Longrightarrow>
         \<not> sublist p (re_sub m repl s)"
proof (induction m repl s rule: re_sub.induct)
  case (1 m repl)
  with pat show ?case by simp
next
  case (2 m repl c cs)
  note r = \<open>repl = [32]\<close>
  note hit = \<open>\<forall>t. prefix p t \<longrightarrow> (\<exists>n. m t = Some (Suc n))\<close>
  show ?case
  proof (cases "\<exists>n. m (c # cs) = Some (Suc n)")
    case True
    then obtain n where n: "m (c # cs) = Some (Suc n)" by blast
    from "2.IH"(3) [OF n _ hit r] have IH: "\<not> sublist p (re_sub m repl (drop n cs))" by simp
    from pat space_32 have "\<not> prefix p (32 # re_sub m repl (drop n cs))"
      by (cases p) auto
    with IH n r show ?thesis by (simp add: sublist_Cons_right)
  next
    case False
    then have eq: "re_sub m repl (c # cs) = c # re_sub m repl cs"
      by (cases "m (c # cs)") (auto simp: gr0_conv_Suc)
    have IH: "\<not> sublist p (re_sub m repl cs)"
    proof (cases "m (c # cs)")
      case None
      from "2.IH"(1) [OF None hit r] show ?thesis .
    next
      case (Some k)
      with False have "k = 0" by (cases k) auto
      from "2.IH"(2) [OF Some this hit r] show ?thesis .
    qed
    have "\<not> prefix p (c # re_sub m repl cs)"
    proof
      assume "prefix p (c # re_sub m repl cs)"
      with eq r have "prefix p (re_sub m [32] (c # cs))" by simp
      with pat(2) have "prefix p (c # cs)" by (rule prefix_re_sub)
      with hit False show False by blast
    qed
    with IH eq show ?thesis by (simp add: sublist_Cons_right)
  qed
qed

lemma re_sub_removes:
  "p \<noteq> [] \<Longrightarrow> \<forall>c\<in>set p. \<not> is_space c \<Longrightarrow>
   \<forall>t. prefix p t \<longrightarrow> (\<exists>n. m t = Some (Suc n)) \<Longrightarrow> \<not> sublist p (re_sub m [32] s)"
  by (rule re_sub_removes_aux [OF _ _ _ refl])

lemma re_sub_no_match:
  "\<forall>t. suffix t s \<longrightarrow> m t = None \<Longrightarrow> re_sub m repl s = s"
proof (induction s)
  case Nil
  then show ?case by simp
next
  case (Cons c cs)
  have "\<forall>t. suffix t cs \<longrightarrow> m t = None"
    using Cons.prems by (simp add: suffix_Cons)
  then have "re_sub m repl cs = cs" by (rule Cons.IH)
  moreover from Cons.prems have "m (c # cs) = None" by simp
  ultimately show ?case by simp
qed

subsection \<open>The three matchers\<close>

lemma match_url_hit:
  assumes "\<not> is_space c" "prefix (ustr ''http'' @ [c]) t \<or> prefix (ustr ''www.'' @ [c]) t"
  shows "\<exists>n. match_url t = Some (Suc n)"
proof -
  from assms(2) obtain r where "t = ustr ''http'' @ c # r \<or> t = ustr ''www.'' @ c # r"
    by (auto simp: prefix_def)
  with assms(1) show ?thesis
    by (auto simp: match_url_def nonspace_run_def ustr_http ustr_www)
qed

lemma match_url_Some:
  assumes "match_url t = Some n"
  shows "\<exists>c. \<not> is_space c \<and> (prefix (ustr ''http'' @ [c]) t \<or> prefix (ustr ''www.'' @ [c]) t)"
proof -
  from assms have pre: "prefix (ustr ''http'') t \<or> prefix (ustr ''www.'') t"
    and run: "1 \<le> nonspace_run (drop 4 t)"
    by (auto simp: match_url_def split: if_splits)
  from run obtain c r where d: "drop 4 t = c # r" and c: "\<not> is_space c"
    by (cases "drop 4 t") (auto simp: nonspace_run_def split: if_splits)
  from pre have "take 4 t = ustr ''http'' \<or> take 4 t = ustr ''www.''"
    by (auto simp: prefix_def ustr_http ustr_www)
  moreover have "t = take 4 t @ c # r" using d by (metis append_take_drop_id)
  ultimately have "t = ustr ''http'' @ c # r \<or> t = ustr ''www.'' @ c # r" by metis
  then have "prefix (ustr ''http'' @ [c]) t \<or> prefix (ustr ''www.'' @ [c]) t"
    by (auto simp: prefix_def)
  with c show ?thesis by blast
qed

lemma match_entity_hit:
  "prefix (ustr ''&amp;'') t \<or> prefix (ustr ''&lt;'') t \<or> prefix (ustr ''&gt;'') t \<Longrightarrow>
   \<exists>n. match_entity t = Some (Suc n)"
  by (auto simp: match_entity_def numeral_eq_Suc)

lemma match_entity_Some:
  "match_entity t = Some n \<Longrightarrow>
   prefix (ustr ''&amp;'') t \<or> prefix (ustr ''&lt;'') t \<or> prefix (ustr ''&gt;'') t"
  by (auto simp: match_entity_def split: if_splits)


subsection \<open>White space\<close>

lemma match_spaces_Cons:
  "match_spaces (c # cs) =
     (if is_space c then Some (Suc (length (takeWhile is_space cs))) else None)"
  by (simp add: match_spaces_def)

lemma re_sub_spaces_Cons:
  "re_sub match_spaces [32] (c # cs) =
     (if is_space c then 32 # re_sub match_spaces [32] (dropWhile is_space cs)
      else c # re_sub match_spaces [32] cs)"
  by (simp add: match_spaces_Cons dropWhile_eq_drop)

lemma collapse_only_32:
  "c \<in> set (re_sub match_spaces [32] s) \<Longrightarrow> is_space c \<Longrightarrow> c = 32"
proof (induction s rule: length_induct)
  case (1 s)
  show ?case
  proof (cases s)
    case Nil
    with "1.prems" show ?thesis by simp
  next
    case (Cons a as)
    show ?thesis
    proof (cases "is_space a")
      case True
      have "length (dropWhile is_space as) < length s"
        using Cons by (simp add: length_dropWhile_le le_imp_less_Suc)
      with "1.IH" "1.prems" True Cons show ?thesis
        by (auto simp: re_sub_spaces_Cons simp del: re_sub.simps)
    next
      case False
      with "1.IH" "1.prems" Cons show ?thesis
        by (auto simp: re_sub_spaces_Cons simp del: re_sub.simps)
    qed
  qed
qed

lemma collapse_hd:
  "s \<noteq> [] \<Longrightarrow> \<not> is_space (hd s) \<Longrightarrow>
   re_sub match_spaces [32] s \<noteq> [] \<and> hd (re_sub match_spaces [32] s) = hd s"
  by (cases s) (simp_all add: re_sub_spaces_Cons del: re_sub.simps)

lemma collapse_no_double:
  "\<not> sublist [32, 32] (re_sub match_spaces [32] s)"
proof (induction s rule: length_induct)
  case (1 s)
  show ?case
  proof (cases s)
    case Nil
    then show ?thesis by simp
  next
    case (Cons a as)
    show ?thesis
    proof (cases "is_space a")
      case True
      let ?d = "dropWhile is_space as"
      have "length ?d < length s"
        using Cons by (simp add: length_dropWhile_le le_imp_less_Suc)
      with "1.IH" have IH: "\<not> sublist [32, 32] (re_sub match_spaces [32] ?d)" by blast
      have "\<not> prefix [32] (re_sub match_spaces [32] ?d)"
      proof (cases ?d)
        case Nil
        then have "re_sub match_spaces [32] ?d = []" by (simp only: re_sub.simps)
        then show ?thesis by (simp only: prefix_Nil) simp
      next
        case (Cons b bs)
        then have "\<not> is_space b" by (metis hd_dropWhile list.sel(1) list.simps(3))
        with Cons space_32 show ?thesis
          by (auto simp: re_sub_spaces_Cons simp del: re_sub.simps)
      qed
      with IH True Cons show ?thesis
        by (simp add: re_sub_spaces_Cons sublist_Cons_right del: re_sub.simps)
    next
      case False
      with space_32 have "a \<noteq> 32" by auto
      moreover from "1.IH" Cons have "\<not> sublist [32, 32] (re_sub match_spaces [32] as)" by simp
      ultimately show ?thesis using False Cons
        by (simp add: re_sub_spaces_Cons sublist_Cons_right del: re_sub.simps)
    qed
  qed
qed

lemma collapse_fixpoint:
  "\<forall>c\<in>set r. is_space c \<longrightarrow> c = 32 \<Longrightarrow> \<not> sublist [32, 32] r \<Longrightarrow>
   re_sub match_spaces [32] r = r"
proof (induction r)
  case Nil
  then show ?case by simp
next
  case (Cons c cs)
  from Cons.prems(2) have nd: "\<not> sublist [32, 32] cs" and np: "\<not> prefix [32, 32] (c # cs)"
    by (simp_all add: sublist_Cons_right)
  from Cons.prems(1) nd have IH: "re_sub match_spaces [32] cs = cs"
    by (intro Cons.IH) simp_all
  show ?case
  proof (cases "is_space c")
    case True
    with Cons.prems(1) have c: "c = 32" by simp
    have "dropWhile is_space cs = cs"
    proof (cases cs)
      case Nil
      then show ?thesis by simp
    next
      case (Cons d ds)
      with np c have "d \<noteq> 32" by auto
      with Cons.prems(1) Cons have "\<not> is_space d" by auto
      with Cons show ?thesis by simp
    qed
    with True c IH show ?thesis
      by (simp add: re_sub_spaces_Cons del: re_sub.simps)
  next
    case False
    with IH show ?thesis by (simp add: re_sub_spaces_Cons del: re_sub.simps)
  qed
qed

lemma strip_blank: "(\<forall>c\<in>set s. is_space c) \<longleftrightarrow> strip s = []"
proof -
  have "(\<forall>x\<in>set (dropWhile is_space s). is_space x) \<longleftrightarrow> dropWhile is_space s = []"
    by (metis empty_iff empty_set hd_dropWhile list.set_sel(1))
  then show ?thesis by (simp add: strip_def lstrip_def rstrip_def)
qed

lemma sublist_strip: "sublist (strip s) s"
proof -
  have "prefix (rstrip (lstrip s)) (lstrip s)"
    unfolding rstrip_def
    by (metis append_take_drop_id prefixI rev_append rev_rev_ident takeWhile_dropWhile_id)
  then have "sublist (strip s) (lstrip s)" by (simp add: strip_def)
  moreover have "sublist (lstrip s) s" by (simp add: lstrip_def)
  ultimately show ?thesis by (rule sublist_trans)
qed


lemma prefix_rstrip: "prefix (rstrip t) t"
  unfolding rstrip_def
  by (metis prefixI rev_append rev_rev_ident takeWhile_dropWhile_id)

lemma strip_ends:
  assumes "strip s \<noteq> []"
  shows "\<not> is_space (hd (strip s)) \<and> \<not> is_space (last (strip s))"
proof -
  let ?t = "lstrip s"
  from assms have ne: "rstrip ?t \<noteq> []" by (simp add: strip_def)
  then have d: "dropWhile is_space (rev ?t) \<noteq> []" by (simp add: rstrip_def)
  have "last (rstrip ?t) = hd (dropWhile is_space (rev ?t))"
    by (simp add: rstrip_def last_rev)
  with d have l: "\<not> is_space (last (rstrip ?t))" by (simp add: hd_dropWhile)
  from prefix_rstrip [of ?t] obtain zs where zs: "?t = rstrip ?t @ zs"
    by (auto simp: prefix_def)
  from ne have "hd (rstrip ?t @ zs) = hd (rstrip ?t)" by (rule hd_append2)
  with zs have "hd (rstrip ?t) = hd ?t" by simp
  moreover from zs ne have t: "?t \<noteq> []" by auto
  moreover from t have "\<not> is_space (hd ?t)" by (simp add: lstrip_def hd_dropWhile)
  ultimately show ?thesis using l by (simp add: strip_def)
qed

lemma strip_fixpoint:
  assumes "s = [] \<or> (\<not> is_space (hd s) \<and> \<not> is_space (last s))"
  shows "strip s = s"
proof (cases s)
  case Nil
  then show ?thesis by (simp add: strip_def lstrip_def rstrip_def)
next
  case (Cons a as)
  with assms have h: "\<not> is_space a" and l: "\<not> is_space (last s)" by simp_all
  from h Cons have "lstrip s = s" by (simp add: lstrip_def)
  moreover from Cons have "rev s \<noteq> []" and "hd (rev s) = last s" by (simp_all add: hd_rev)
  with l have "dropWhile is_space (rev s) = rev s"
    by (metis dropWhile.simps(2) list.collapse)
  then have "rstrip s = s" by (simp add: rstrip_def)
  ultimately show ?thesis by (simp add: strip_def)
qed

subsection \<open>clean_text\<close>

lemma clean_text_collapsed: "clean_text t = strip (collapsed t)"
  by (simp add: clean_text_def collapsed_def ustr_space)

lemma nonspace_patterns:
  "\<not> is_space c \<Longrightarrow> \<forall>x\<in>set (ustr ''http'' @ [c]). \<not> is_space x"
  "\<not> is_space c \<Longrightarrow> \<forall>x\<in>set (ustr ''www.'' @ [c]). \<not> is_space x"
  "\<forall>x\<in>set (ustr ''&amp;''). \<not> is_space x"
  "\<forall>x\<in>set (ustr ''&lt;''). \<not> is_space x"
  "\<forall>x\<in>set (ustr ''&gt;''). \<not> is_space x"
  by (simp_all add: ustr_def is_space_def)

lemma clean_text_no_url:
  assumes c: "\<not> is_space c" and p: "p = ustr ''http'' @ [c] \<or> p = ustr ''www.'' @ [c]"
  shows "\<not> sublist p (clean_text t)"
proof
  assume a: "sublist p (clean_text t)"
  from c p have ns: "\<forall>x\<in>set p. \<not> is_space x" using nonspace_patterns(1,2) by blast
  from p have ne: "p \<noteq> []" by auto
  from a have "sublist p (collapsed t)"
    unfolding clean_text_collapsed using sublist_strip by (rule sublist_trans)
  then have "sublist p (re_sub match_entity [32] (re_sub match_url [32] t))"
    unfolding collapsed_def by (rule sublist_re_sub [OF ns])
  then have "sublist p (re_sub match_url [32] t)"
    by (rule sublist_re_sub [OF ns])
  moreover have "\<forall>t. prefix p t \<longrightarrow> (\<exists>n. match_url t = Some (Suc n))"
    using match_url_hit [OF c] p by blast
  then have "\<not> sublist p (re_sub match_url [32] t)"
    by (rule re_sub_removes [OF ne ns])
  ultimately show False by contradiction
qed

lemma clean_text_no_entity:
  assumes p: "p = ustr ''&amp;'' \<or> p = ustr ''&lt;'' \<or> p = ustr ''&gt;''"
  shows "\<not> sublist p (clean_text t)"
proof
  assume a: "sublist p (clean_text t)"
  from p have ns: "\<forall>x\<in>set p. \<not> is_space x" using nonspace_patterns(3,4,5) by blast
  from p have ne: "p \<noteq> []" by (auto simp: ustr_def)
  from a have "sublist p (collapsed t)"
    unfolding clean_text_collapsed using sublist_strip by (rule sublist_trans)
  then have "sublist p (re_sub match_entity [32] (re_sub match_url [32] t))"
    unfolding collapsed_def by (rule sublist_re_sub [OF ns])
  moreover have "\<forall>t. prefix p t \<longrightarrow> (\<exists>n. match_entity t = Some (Suc n))"
    using match_entity_hit p by blast
  then have "\<not> sublist p (re_sub match_entity [32] (re_sub match_url [32] t))"
    by (rule re_sub_removes [OF ne ns])
  ultimately show False by contradiction
qed

lemma clean_text_only_32: "c \<in> set (clean_text t) \<Longrightarrow> is_space c \<Longrightarrow> c = 32"
proof -
  assume "c \<in> set (clean_text t)" and sp: "is_space c"
  then have "c \<in> set (collapsed t)"
    using set_mono_sublist [OF sublist_strip] unfolding clean_text_collapsed by blast
  then show ?thesis unfolding collapsed_def using sp by (rule collapse_only_32)
qed

lemma clean_text_no_double: "\<not> sublist [32, 32] (clean_text t)"
proof
  assume "sublist [32, 32] (clean_text t)"
  then have "sublist [32, 32] (collapsed t)"
    unfolding clean_text_collapsed using sublist_strip by (rule sublist_trans)
  with collapse_no_double show False unfolding collapsed_def by blast
qed

lemma clean_text_ends:
  "clean_text t \<noteq> [] \<Longrightarrow> \<not> is_space (hd (clean_text t)) \<and> \<not> is_space (last (clean_text t))"
  unfolding clean_text_collapsed by (rule strip_ends)

section \<open>The examples, evaluated\<close>

lemma ex_clean: "clean_text (ustr ''a  http://x &lt;b '') = ustr ''a b''"
  by (simp add: text_eval)

lemma ex_clean_words: "clean_text (ustr ''good'') = ustr ''good''" "clean_text (ustr ''bad'') = ustr ''bad''"
  by (simp_all add: text_eval)

lemma ex_strip_words:
  "strip (ustr ''good'') = ustr ''good''" "strip (ustr ''bad'') = ustr ''bad''"
  "ustr ''good'' \<noteq> []" "ustr ''bad'' \<noteq> []"
  "length (ustr ''good'') = 4" "length (ustr ''bad'') = 3"
  by (simp_all add: strip_def lstrip_def rstrip_def ustr_def is_space_def)

lemma ex_thread_comments:
  "thread_comments ''v'' (ex_thread cid t) = [ex_comment cid t]"
  by (simp add: thread_comments_def ex_thread_def ex_comment_def)

lemma ex_fetch:
  "fetch_comments ex_api ''v'' None 5000 =
     Some (Inr [ex_comment ''c1'' ''good'', ex_comment ''c2'' ''bad'', ex_comment ''c1'' ''good''])"
  by (simp add: fetch_comments_def fetch_loop.simps loop_body_def request_page_def n_requests_def
      page_comments_def truthy_def page_limit_def initial_state_def slice_to_def
      ex_api_def ex_page_def ex_last_page_def ex_thread_comments)

lemma ex_fetch_short:
  "fetch_comments api_then_down ''v'' None 5000 = Some (Inr [ex_comment ''c1'' ''good''])"
  by (simp add: fetch_comments_def fetch_loop.simps loop_body_def request_page_def n_requests_def
      page_comments_def truthy_def page_limit_def initial_state_def slice_to_def
      api_then_down_def ex_page_def ex_thread_comments)

lemma ex_comment_fields:
  "comment_id (ex_comment cid t) = (if cid = [] then None else Some cid)"
  "comment (ex_comment cid t) = Some (ustr t)"
  "published (ex_comment cid t) = Some ''2024-01-01T00:00:00Z''"
  by (simp_all add: ex_comment_def make_comment_def py_or_def truthy_def ex_snippet_def Let_def)

lemma ex_annotate:
  assumes "clean_text (ustr t) = ustr t" and "strip (ustr t) \<noteq> []"
    and "detect e = (\<lambda>t. Inr ''en'')" "polarity_scores e = ex_scores" "to_datetime e = (\<lambda>t. None)"
  shows "annotate e (ex_comment cid t) = Inr (ex_row cid t)"
  using assms
  by (simp add: annotate_def ex_comment_fields safe_lang_def try_except_def ex_row_def Let_def)

lemma ex_process:
  "process ex_env [ex_comment ''c1'' ''good'', ex_comment ''c2'' ''bad'', ex_comment ''c1'' ''good''] =
     Inr [ex_row ''c1'' ''good'', ex_row ''c2'' ''bad'']"
  by (simp add: process_def drop_duplicates_def ex_comment_fields ex_annotate ex_clean_words
      ex_strip_words ex_env_def)

lemma ex_process_short:
  "process ex_env_short [ex_comment ''c1'' ''good''] = Inr [ex_row ''c1'' ''good'']"
  by (simp add: process_def drop_duplicates_def ex_comment_fields ex_annotate ex_clean_words
      ex_strip_words ex_env_def ex_env_short_def)

lemma ex_row_fields:
  "sentiment_vader (ex_row cid ''good'') = ''Positive''"
  "sentiment_vader (ex_row cid ''bad'') = ''Negative''"
  "clean_comment (ex_row cid t) = ustr t"
  "compound (score (ex_row cid ''good'')) = 0.4404"
  "compound (score (ex_row cid ''bad'')) = - 0.5423"
  "comment_id (base (ex_row cid t)) = (if cid = [] then None else Some cid)"
  by (simp_all add: ex_row_def ex_scores_def vader_label_def ustr_def ex_comment_fields)

lemma strip_Nil: "strip [] = []"
  by (simp add: strip_def lstrip_def rstrip_def)

lemma ex_run:
  "run ex_env ''v'' None 5000 ts =
     Some ([(raw_path ''v'' ts,
               RawJson [ex_comment ''c1'' ''good'', ex_comment ''c2'' ''bad'', ex_comment ''c1'' ''good'']),
            (processed_path ''v'' ts, ProcessedCsv [ex_row ''c1'' ''good'', ex_row ''c2'' ''bad'']),
            (kpi_path ''v'' ts, KpiCsv (make_kpi ex_env ''v'' [ex_row ''c1'' ''good'', ex_row ''c2'' ''bad''])),
            (wordcloud_path ''positive'' ''v'' ts, WordcloudPng ''Positive'' (ustr ''good'')),
            (wordcloud_path ''negative'' ''v'' ts, WordcloudPng ''Negative'' (ustr ''bad''))],
           Inr (processed_path ''v'' ts))"
proof -
  have "youtube ex_env = ex_api" "lower ex_env = (\<lambda>t. t)" "wordcloud_generate ex_env = (\<lambda>t. None)"
    by (simp_all add: ex_env_def)
  then show ?thesis
    by (simp add: run_def ex_fetch run_files_def ex_process make_wordcloud_def clean_comments_of_def
        ex_row_fields ex_strip_words Let_def)
qed

lemma ex_run_short:
  "run ex_env_short ''v'' None 5000 ts =
     Some ([(raw_path ''v'' ts, RawJson [ex_comment ''c1'' ''good'']),
            (processed_path ''v'' ts, ProcessedCsv [ex_row ''c1'' ''good'']),
            (kpi_path ''v'' ts, KpiCsv (make_kpi ex_env_short ''v'' [ex_row ''c1'' ''good''])),
            (wordcloud_path ''positive'' ''v'' ts, WordcloudPng ''Positive'' (ustr ''good''))],
           Inr (processed_path ''v'' ts))"
proof -
  have "youtube ex_env_short = api_then_down" "lower ex_env_short = (\<lambda>t. t)"
    "wordcloud_generate ex_env_short = (\<lambda>t. None)"
    by (simp_all add: ex_env_def ex_env_short_def)
  then show ?thesis
    by (simp add: run_def ex_fetch_short run_files_def ex_process_short make_wordcloud_def
        clean_comments_of_def ex_row_fields ex_strip_words strip_Nil Let_def)
qed

lemma ex_paths:
  "raw_path ''v'' 1700000000 = [''data'', ''raw'', ''comments_v_1700000000.json'']"
  "processed_path ''v'' 1700000000 = [''data'', ''processed'', ''processed_v_1700000000.csv'']"
  "kpi_path ''v'' 1700000000 = [''data'', ''outputs'', ''kpi_v_1700000000.csv'']"
  "wordcloud_path ''positive'' ''v'' 1700000000 =
     [''data'', ''outputs'', ''wordcloud_positive_v_1700000000.png'']"
  "wordcloud_path ''negative'' ''v'' 1700000000 =
     [''data'', ''outputs'', ''wordcloud_negative_v_1700000000.png'']"
  "raw_path ''v'' 1700000001 = [''data'', ''raw'', ''comments_v_1700000001.json'']"
  "processed_path ''v'' 1700000001 = [''data'', ''processed'', ''processed_v_1700000001.csv'']"
  "kpi_path ''v'' 1700000001 = [''data'', ''outputs'', ''kpi_v_1700000001.csv'']"
  "wordcloud_path ''positive'' ''v'' 1700000001 =
     [''data'', ''outputs'', ''wordcloud_positive_v_1700000001.png'']"
  "wordcloud_path ''negative'' ''v'' 1700000001 =
     [''data'', ''outputs'', ''wordcloud_negative_v_1700000001.png'']"
  by (simp_all add: raw_path_def processed_path_def processed_name_def kpi_path_def
      wordcloud_path_def RAW_DIR_def PROC_DIR_def OUT_DIR_def str_int_def)

section \<open>Claims about the text functions\<close>

text \<open>
  Claim C3, as amended. For every input, the result of \<open>clean_text\<close> contains no
  \<^verbatim>\<open>http\<close> and no \<^verbatim>\<open>www.\<close> that is followed by a non-space character, and none of
  the three entities \<^verbatim>\<open>&amp;\<close>, \<^verbatim>\<open>&lt;\<close>, \<^verbatim>\<open>&gt;\<close>; each of its white-space
  characters is a single U+0020 with no other white space next to it; and it neither
  starts nor ends with white space. (The bare tokens \<^verbatim>\<open>http\<close> and \<^verbatim>\<open>www.\<close> and every
  other HTML entity stay: see the counterexample.)
\<close>

theorem clean_text_strips:
  "(\<not> is_space c \<longrightarrow>
      \<not> sublist (ustr ''http'' @ [c]) (clean_text t) \<and>
      \<not> sublist (ustr ''www.'' @ [c]) (clean_text t)) \<and>
   \<not> sublist (ustr ''&amp;'') (clean_text t) \<and>
   \<not> sublist (ustr ''&lt;'') (clean_text t) \<and>
   \<not> sublist (ustr ''&gt;'') (clean_text t) \<and>
   (\<forall>d\<in>set (clean_text t). is_space d \<longrightarrow> d = 32) \<and>
   \<not> sublist [32, 32] (clean_text t) \<and>
   (clean_text t \<noteq> [] \<longrightarrow>
      \<not> is_space (hd (clean_text t)) \<and> \<not> is_space (last (clean_text t)))"
  using clean_text_no_url [of c _ t] clean_text_no_entity [of _ t]
    clean_text_only_32 [of _ t] clean_text_no_double [of t] clean_text_ends [of t]
  by blast

theorem clean_text_strips_witness:
  "\<not> is_space 58 \<and>
   \<not> sublist (ustr ''http'' @ [58]) (clean_text (ustr ''a  http://x &lt;b '')) \<and>
   32 \<in> set (clean_text (ustr ''a  http://x &lt;b '')) \<and> is_space 32 \<and>
   clean_text (ustr ''a  http://x &lt;b '') \<noteq> [] \<and>
   \<not> is_space (hd (clean_text (ustr ''a  http://x &lt;b ''))) \<and>
   clean_text (ustr ''a  http://x &lt;b '') = ustr ''a b''"
  using clean_text_strips [of 58 "ustr ''a  http://x &lt;b ''"]
  unfolding ex_clean by (simp add: ustr_def is_space_def)

text \<open>
  Claim C3 as stated fails: \<^verbatim>\<open>&quot;\<close> is an HTML entity and \<^verbatim>\<open>http\<close> is a token that
  begins with \<^verbatim>\<open>http\<close>, and \<open>clean_text\<close> returns both unchanged. The entity pattern
  lists three entities only, and \<^verbatim>\<open>http\S+\<close> needs a character after \<^verbatim>\<open>http\<close>.
\<close>

theorem clean_text_keeps_quot_and_bare_http:
  "clean_text (ustr ''&quot; http'') = ustr ''&quot; http'' \<and>
   sublist (ustr ''&quot;'') (clean_text (ustr ''&quot; http'')) \<and>
   suffix (ustr '' http'') (clean_text (ustr ''&quot; http''))"
  by (simp add: text_eval sublist_Cons_right suffix_def)

text \<open>
  Claim C8. \<open>clean_text\<close> is idempotent: cleaning a cleaned text changes nothing.
\<close>

theorem clean_text_idempotent: "clean_text (clean_text t) = clean_text t"
proof -
  let ?r = "clean_text t"
  have "\<forall>u. suffix u ?r \<longrightarrow> match_url u = None"
  proof (intro allI impI)
    fix u assume u: "suffix u ?r"
    show "match_url u = None"
    proof (cases "match_url u")
      case None
      then show ?thesis .
    next
      case (Some n)
      from match_url_Some [OF this] obtain c where c: "\<not> is_space c"
        and pre: "prefix (ustr ''http'' @ [c]) u \<or> prefix (ustr ''www.'' @ [c]) u" by blast
      from pre u have "sublist (ustr ''http'' @ [c]) ?r \<or> sublist (ustr ''www.'' @ [c]) ?r"
        by (auto simp: sublist_altdef')
      with clean_text_no_url [OF c] show ?thesis by blast
    qed
  qed
  then have 1: "re_sub match_url [32] ?r = ?r" by (rule re_sub_no_match)
  have "\<forall>u. suffix u ?r \<longrightarrow> match_entity u = None"
  proof (intro allI impI)
    fix u assume u: "suffix u ?r"
    show "match_entity u = None"
    proof (cases "match_entity u")
      case None
      then show ?thesis .
    next
      case (Some n)
      from match_entity_Some [OF this] u
      have "sublist (ustr ''&amp;'') ?r \<or> sublist (ustr ''&lt;'') ?r \<or> sublist (ustr ''&gt;'') ?r"
        by (auto simp: sublist_altdef')
      with clean_text_no_entity show ?thesis by blast
    qed
  qed
  then have 2: "re_sub match_entity [32] ?r = ?r" by (rule re_sub_no_match)
  have 3: "re_sub match_spaces [32] ?r = ?r"
    using clean_text_only_32 clean_text_no_double by (intro collapse_fixpoint) blast+
  have 4: "strip ?r = ?r"
    using clean_text_ends by (intro strip_fixpoint) blast
  from 1 2 3 4 show ?thesis
    by (simp add: clean_text_collapsed [of "clean_text t"] collapsed_def)
qed

text \<open>
  Claim C9. \<open>safe_lang\<close> never raises: for every detector and every text it returns a
  language string, and that string is \<^verbatim>\<open>unknown\<close> when the text is empty or all white
  space, and when the detector raises.
\<close>

theorem safe_lang_total:
  "(\<exists>l. safe_lang detector s = Inr l) \<and>
   ((\<forall>c\<in>set s. is_space c) \<longrightarrow> safe_lang detector s = Inr ''unknown'') \<and>
   (\<forall>e. detector s = Inl e \<longrightarrow> safe_lang detector s = Inr ''unknown'')"
proof (intro conjI allI impI)
  show "\<exists>l. safe_lang detector s = Inr l"
    by (cases "detector s") (simp_all add: safe_lang_def try_except_def is_Exception_def)
next
  assume "\<forall>c\<in>set s. is_space c"
  then have "strip s = []" by (simp add: strip_blank)
  then show "safe_lang detector s = Inr ''unknown''"
    by (simp add: safe_lang_def try_except_def)
next
  fix e assume "detector s = Inl e"
  then show "safe_lang detector s = Inr ''unknown''"
    by (simp add: safe_lang_def try_except_def is_Exception_def)
qed

theorem safe_lang_total_witness:
  "list_all is_space (ustr ''  '') \<and>
   safe_lang (\<lambda>t. Inr ''en'') (ustr ''  '') = Inr ''unknown'' \<and>
   safe_lang (\<lambda>t. Inl LangDetectException) (ustr ''abc'') = Inr ''unknown'' \<and>
   safe_lang (\<lambda>t. Inr ''en'') (ustr ''abc'') = Inr ''en''"
  using safe_lang_total [of "\<lambda>t. Inr ''en''" "ustr ''  ''"]
    safe_lang_total [of "\<lambda>t. Inl LangDetectException" "ustr ''abc''"]
  by (simp add: safe_lang_def try_except_def text_eval)

section \<open>Properties of the fetch loop\<close>

lemmas fetch_eval =
  fetch_comments_def fetch_loop.simps loop_body_def request_page_def n_requests_def
  page_comments_def thread_comments_def make_comment_def py_or_def truthy_def page_limit_def
  initial_state_def slice_to_def
lemmas ex_eval =
  ex_api_def ex_page_def ex_last_page_def ex_thread_def ex_snippet_def api_down_def
  api_then_down_def api_broken_def


lemma slice_to_length: "0 \<le> k \<Longrightarrow> int (length (slice_to xs k)) \<le> k"
  by (simp add: slice_to_def)

lemma after_turns_fetch_loop:
  "after_turns yt vid mp mc n s0 = Some s \<Longrightarrow>
   fetch_loop yt vid mp mc s0 = fetch_loop yt vid mp mc s"
proof (induction n arbitrary: s0)
  case 0
  then show ?case by simp
next
  case (Suc n)
  then obtain s1 where 1: "loop_body yt vid mp mc s0 = Continue s1"
    and 2: "after_turns yt vid mp mc n s1 = Some s"
    by (auto split: control.splits)
  from 1 have "fetch_loop yt vid mp mc s0 = fetch_loop yt vid mp mc s1"
    by (subst fetch_loop.simps) simp
  with Suc.IH [OF 2] show ?case by simp
qed

lemma loop_body_Continue:
  "loop_body yt vid mp mc s = Continue s' \<Longrightarrow>
   int (length (comments s')) < mc \<and> truthy (token s') \<and> \<not> page_limit mp (page s') \<and>
   page s' = Suc (page s)"
  by (auto simp: loop_body_def Let_def split: prod.splits attempt.splits if_splits)

lemma after_turns_below_cap:
  "after_turns yt vid mp mc n s0 = Some s \<Longrightarrow>
   s = s0 \<or> int (length (comments s)) < mc"
proof (induction n arbitrary: s0)
  case 0
  then show ?case by simp
next
  case (Suc n)
  then obtain s1 where 1: "loop_body yt vid mp mc s0 = Continue s1"
    and 2: "after_turns yt vid mp mc n s1 = Some s"
    by (auto split: control.splits)
  from Suc.IH [OF 2] loop_body_Continue [OF 1] show ?case by auto
qed

lemma fetch_loop_page_limit_aux:
  "mp = Some n \<Longrightarrow> 0 < n \<Longrightarrow> nat n - page s = k \<Longrightarrow> \<exists>r. fetch_loop yt vid mp mc s = Some r"
proof (induction k arbitrary: s rule: less_induct)
  case (less k)
  show ?case
  proof (cases "loop_body yt vid mp mc s")
    case (Break s')
    then show ?thesis by (subst fetch_loop.simps) simp
  next
    case (Raise e s')
    then show ?thesis by (subst fetch_loop.simps) simp
  next
    case (Continue s')
    from loop_body_Continue [OF this] less.prems
    have "page s' = Suc (page s)" and "int (page s') < n"
      by (auto simp: page_limit_def)
    with less.prems have "nat n - page s' < k" by auto
    from less.IH [OF this less.prems(1,2) refl] Continue show ?thesis
      by (subst fetch_loop.simps) simp
  qed
qed


lemma fetch_comments_returns_under_page_limit:
  "0 < n \<Longrightarrow> \<exists>r. fetch_comments yt vid (Some n) mc = Some r"
proof -
  assume "0 < n"
  from fetch_loop_page_limit_aux [OF refl this refl]
  obtain r where "fetch_loop yt vid (Some n) mc initial_state = Some r" by blast
  then show ?thesis
    by (cases r) (auto simp: fetch_comments_def split: option.splits)
qed

lemma request_page_cases:
  "request_page yt vid tok tr =
     (case yt (n_requests tr) vid tok of
        Returns resp \<Rightarrow> (Got resp, tr @ [Request tok])
      | Raises e \<Rightarrow>
          if e \<noteq> HttpError then (Raised e, tr @ [Request tok])
          else (case yt (Suc (n_requests tr)) vid tok of
                  Returns resp \<Rightarrow> Got resp
                | Raises e2 \<Rightarrow> Failed,
                tr @ [Request tok, Sleep 5000, Request tok]))"
  by (auto simp: request_page_def n_requests_def Let_def split: outcome.splits)


section \<open>Claims about the fetch loop\<close>

text \<open>
  Claim C2, as amended. A turn of the pagination loop ends the loop exactly when the
  request failed (an \<^verbatim>\<open>HttpError\<close> followed by a failed second attempt, or another
  exception of the first attempt, which propagates), or the number of accumulated
  comments has reached \<^verbatim>\<open>max_comments\<close>, or the response carries no (or an empty)
  \<^verbatim>\<open>nextPageToken\<close>, or \<^verbatim>\<open>max_pages\<close> is set and that many pages have been fetched.
  For \<^verbatim>\<open>max_comments \<ge> 0\<close> the list that \<open>fetch_comments\<close> returns has at most
  \<^verbatim>\<open>max_comments\<close> records.
\<close>

theorem fetch_loop_stop_conditions:
  "(stops (loop_body yt vid mp mc s) \<longleftrightarrow>
      (case fst (request_page yt vid (token s) (trace s)) of
         Got resp \<Rightarrow>
           mc \<le> int (length (comments s) + length (page_comments vid resp)) \<or>
           \<not> truthy (nextPageToken resp) \<or> page_limit mp (page s + 1)
       | Failed \<Rightarrow> True
       | Raised e \<Rightarrow> True)) \<and>
   (0 \<le> mc \<longrightarrow>
      (\<forall>cs. fetch_comments yt vid mp mc = Some (Inr cs) \<longrightarrow> int (length cs) \<le> mc))"
proof
  show "stops (loop_body yt vid mp mc s) \<longleftrightarrow>
      (case fst (request_page yt vid (token s) (trace s)) of
         Got resp \<Rightarrow>
           mc \<le> int (length (comments s) + length (page_comments vid resp)) \<or>
           \<not> truthy (nextPageToken resp) \<or> page_limit mp (page s + 1)
       | Failed \<Rightarrow> True
       | Raised e \<Rightarrow> True)"
    by (cases "request_page yt vid (token s) (trace s)")
      (auto simp: loop_body_def stops_def Let_def split: attempt.splits)
next
  show "0 \<le> mc \<longrightarrow>
      (\<forall>cs. fetch_comments yt vid mp mc = Some (Inr cs) \<longrightarrow> int (length cs) \<le> mc)"
    by (auto simp: fetch_comments_def slice_to_length split: option.splits prod.splits)
qed

theorem fetch_loop_stop_conditions_witness:
  "stops (loop_body ex_api ''v'' (Some 1) 5000 initial_state) \<and>
   page_limit (Some 1) (page initial_state + 1) \<and>
   \<not> stops (loop_body ex_api ''v'' None 5000 initial_state) \<and>
   (0::int) \<le> 1 \<and>
   map_option (map_sum id (map comment_id)) (fetch_comments ex_api ''v'' None 1) =
     Some (Inr [Some ''c1''])"
  using fetch_loop_stop_conditions [of ex_api "''v''" "Some 1" 5000 initial_state]
    fetch_loop_stop_conditions [of ex_api "''v''" None 1 initial_state]
  by (simp add: fetch_eval ex_eval stops_def)

text \<open>
  Claim C2 as stated fails. With \<^verbatim>\<open>max_pages = 1\<close> the loop stops after a page of one
  comment that carries a next page token, under a cap of 5000; with the platform down
  it stops without any response; and with \<^verbatim>\<open>max_comments = -1\<close> the slice
  \<^verbatim>\<open>comments[:-1]\<close> of the one fetched comment is empty, which is more than \<open>-1\<close> records.
\<close>

theorem fetch_loop_stops_for_other_reasons:
  "loop_body ex_api ''v'' (Some 1) 5000 initial_state =
     Break \<lparr>comments = page_comments ''v'' ex_page, token = Some ''T'', page = 1,
            trace = [Request None]\<rparr> \<and>
   length (page_comments ''v'' ex_page) = 1 \<and>
   nextPageToken ex_page = Some ''T'' \<and>
   loop_body api_down ''v'' None 5000 initial_state =
     Break \<lparr>comments = [], token = None, page = 0,
            trace = [Request None, Sleep 5000, Request None]\<rparr> \<and>
   fetch_comments ex_api ''v'' None (- 1) = Some (Inr []) \<and>
   \<not> int (length ([] :: comment_rec list)) \<le> - 1"
  by (simp add: fetch_eval ex_eval)

text \<open>
  The retry, at any turn that the loop reaches: a first attempt that returns is not
  repeated; a first attempt that raises something other than \<^verbatim>\<open>HttpError\<close> is not
  retried and the exception leaves \<open>fetch_comments\<close>; a first attempt that raises
  \<^verbatim>\<open>HttpError\<close> is followed by one sleep of five seconds and exactly one more request
  with the same page token, and if that one raises too (whatever it raises), the loop
  ends and \<open>fetch_comments\<close> returns the comments accumulated so far.
\<close>

lemma retry_on_http_error:
  assumes reach: "after_turns yt vid mp mc n initial_state = Some s"
  shows
    "(\<forall>resp. yt (n_requests (trace s)) vid (token s) = Returns resp \<longrightarrow>
        request_page yt vid (token s) (trace s) = (Got resp, trace s @ [Request (token s)])) \<and>
     (\<forall>e. yt (n_requests (trace s)) vid (token s) = Raises e \<and> e \<noteq> HttpError \<longrightarrow>
        request_page yt vid (token s) (trace s) = (Raised e, trace s @ [Request (token s)]) \<and>
        fetch_comments yt vid mp mc = Some (Inl e)) \<and>
     (yt (n_requests (trace s)) vid (token s) = Raises HttpError \<longrightarrow>
        snd (request_page yt vid (token s) (trace s)) =
          trace s @ [Request (token s), Sleep 5000, Request (token s)] \<and>
        (\<forall>resp. yt (Suc (n_requests (trace s))) vid (token s) = Returns resp \<longrightarrow>
           fst (request_page yt vid (token s) (trace s)) = Got resp) \<and>
        (\<forall>e2. yt (Suc (n_requests (trace s))) vid (token s) = Raises e2 \<longrightarrow>
           fetch_loop yt vid mp mc initial_state =
             Some (None, s\<lparr>trace := trace s @ [Request (token s), Sleep 5000, Request (token s)]\<rparr>) \<and>
           fetch_comments yt vid mp mc = Some (Inr (comments s))))"
proof -
  let ?tr = "trace s" and ?tok = "token s"
  let ?tr2 = "?tr @ [Request ?tok, Sleep 5000, Request ?tok]"
  note loop = after_turns_fetch_loop [OF reach]
  have slice: "slice_to (comments s) mc = comments s"
    using after_turns_below_cap [OF reach]
    by (auto simp: slice_to_def initial_state_def)
  have a: "\<forall>resp. yt (n_requests ?tr) vid ?tok = Returns resp \<longrightarrow>
        request_page yt vid ?tok ?tr = (Got resp, ?tr @ [Request ?tok])"
    by (simp add: request_page_cases)
  have b: "\<forall>e. yt (n_requests ?tr) vid ?tok = Raises e \<and> e \<noteq> HttpError \<longrightarrow>
        request_page yt vid ?tok ?tr = (Raised e, ?tr @ [Request ?tok]) \<and>
        fetch_comments yt vid mp mc = Some (Inl e)"
  proof (intro allI impI)
    fix e assume e: "yt (n_requests ?tr) vid ?tok = Raises e \<and> e \<noteq> HttpError"
    then have rp: "request_page yt vid ?tok ?tr = (Raised e, ?tr @ [Request ?tok])"
      by (simp add: request_page_cases)
    then have "loop_body yt vid mp mc s = Raise e (s\<lparr>trace := ?tr @ [Request ?tok]\<rparr>)"
      by (simp add: loop_body_def)
    then have "fetch_loop yt vid mp mc s = Some (Some e, s\<lparr>trace := ?tr @ [Request ?tok]\<rparr>)"
      by (subst fetch_loop.simps) simp
    with loop have "fetch_comments yt vid mp mc = Some (Inl e)"
      by (simp add: fetch_comments_def)
    with rp show "request_page yt vid ?tok ?tr = (Raised e, ?tr @ [Request ?tok]) \<and>
        fetch_comments yt vid mp mc = Some (Inl e)" by simp
  qed
  have c: "yt (n_requests ?tr) vid ?tok = Raises HttpError \<longrightarrow>
        snd (request_page yt vid ?tok ?tr) = ?tr2 \<and>
        (\<forall>resp. yt (Suc (n_requests ?tr)) vid ?tok = Returns resp \<longrightarrow>
           fst (request_page yt vid ?tok ?tr) = Got resp) \<and>
        (\<forall>e2. yt (Suc (n_requests ?tr)) vid ?tok = Raises e2 \<longrightarrow>
           fetch_loop yt vid mp mc initial_state = Some (None, s\<lparr>trace := ?tr2\<rparr>) \<and>
           fetch_comments yt vid mp mc = Some (Inr (comments s)))"
  proof (intro impI conjI allI)
    assume h: "yt (n_requests ?tr) vid ?tok = Raises HttpError"
    then show "snd (request_page yt vid ?tok ?tr) = ?tr2"
      by (simp add: request_page_cases)
    {
      fix resp assume "yt (Suc (n_requests ?tr)) vid ?tok = Returns resp"
      with h show "fst (request_page yt vid ?tok ?tr) = Got resp"
        by (simp add: request_page_cases)
    }
    {
      fix e2 assume "yt (Suc (n_requests ?tr)) vid ?tok = Raises e2"
      with h have "request_page yt vid ?tok ?tr = (Failed, ?tr2)"
        by (simp add: request_page_cases)
      then have "loop_body yt vid mp mc s = Break (s\<lparr>trace := ?tr2\<rparr>)"
        by (simp add: loop_body_def)
      then have "fetch_loop yt vid mp mc s = Some (None, s\<lparr>trace := ?tr2\<rparr>)"
        by (subst fetch_loop.simps) simp
      with loop show fl: "fetch_loop yt vid mp mc initial_state = Some (None, s\<lparr>trace := ?tr2\<rparr>)"
        by simp
      with slice show "fetch_comments yt vid mp mc = Some (Inr (comments s))"
        by (simp add: fetch_comments_def)
    }
  qed
  from a b c show ?thesis by blast
qed

section \<open>Properties of the pipeline\<close>

lemma safe_lang_returns: "\<exists>l. safe_lang d s = Inr l"
  by (cases "d s") (simp_all add: safe_lang_def try_except_def is_Exception_def)

lemma drop_duplicates_seen_distinct:
  "distinct (map key (drop_duplicates_seen key seen xs)) \<and>
   set (map key (drop_duplicates_seen key seen xs)) \<inter> set seen = {}"
proof (induction xs arbitrary: seen)
  case Nil
  show ?case by simp
next
  case (Cons x xs)
  show ?case
  proof (cases "key x \<in> set seen")
    case True
    with Cons.IH [of seen] show ?thesis by simp
  next
    case False
    with Cons.IH [of "key x # seen"] show ?thesis by auto
  qed
qed

lemma drop_duplicates_distinct: "distinct (map key (drop_duplicates key xs))"
  using drop_duplicates_seen_distinct [of key "[]" xs] by (simp add: drop_duplicates_def)

lemma annotate_row:
  "\<exists>r. annotate e c = Inr r \<and> base r = c \<and>
       sentiment_vader r = vader_label (compound (score r))"
proof -
  let ?clean = "clean_text (case comment c of None \<Rightarrow> [] | Some t \<Rightarrow> t)"
  from safe_lang_returns obtain l where "safe_lang (detect e) ?clean = Inr l" by blast
  then show ?thesis by (simp add: annotate_def Let_def)
qed

lemma map_raise_rows:
  "\<forall>x\<in>set xs. \<exists>y. f x = Inr y \<and> P x y \<Longrightarrow>
   \<exists>ys. map_raise f xs = Inr ys \<and> list_all2 P xs ys"
proof (induction xs)
  case Nil
  then show ?case by simp
next
  case (Cons x xs)
  then obtain y ys where "f x = Inr y" "P x y" "map_raise f xs = Inr ys" "list_all2 P xs ys"
    by auto
  then show ?case by simp
qed

lemma process_rows:
  "\<exists>df. process e cs = Inr df \<and>
        map base df = drop_duplicates comment_id cs \<and>
        (\<forall>r\<in>set df. sentiment_vader r = vader_label (compound (score r)))"
proof -
  let ?P = "\<lambda>c r. base r = c \<and> sentiment_vader r = vader_label (compound (score r))"
  have "\<forall>c\<in>set (drop_duplicates comment_id cs). \<exists>r. annotate e c = Inr r \<and> ?P c r"
    using annotate_row by blast
  from map_raise_rows [of _ "annotate e" ?P, OF this]
  obtain df where df: "process e cs = Inr df"
    and all: "list_all2 ?P (drop_duplicates comment_id cs) df"
    by (auto simp: process_def)
  from all have "map base df = drop_duplicates comment_id cs"
    by (induction rule: list_all2_induct) simp_all
  moreover from all have "\<forall>r\<in>set df. sentiment_vader r = vader_label (compound (score r))"
    by (induction rule: list_all2_induct) simp_all
  ultimately show ?thesis using df by blast
qed

lemma make_wordcloud_writes:
  "make_wordcloud e ts' p l = Inr w \<Longrightarrow> w = [] \<or> (\<exists>t. w = [(p, WordcloudPng l t)])"
  by (auto simp: make_wordcloud_def Let_def split: if_splits option.splits)

lemma run_files_writes:
  "\<exists>df wc. process e cs = Inr df \<and>
     fst (run_files e vid ts cs) =
       [(raw_path vid ts, RawJson cs), (processed_path vid ts, ProcessedCsv df),
        (kpi_path vid ts, KpiCsv (make_kpi e vid df))] @ wc \<and>
     (\<forall>(p, c)\<in>set wc.
        (\<exists>t. c = WordcloudPng ''Positive'' t \<and> p = wordcloud_path ''positive'' vid ts) \<or>
        (\<exists>t. c = WordcloudPng ''Negative'' t \<and> p = wordcloud_path ''negative'' vid ts)) \<and>
     (\<forall>out. snd (run_files e vid ts cs) = Inr out \<longrightarrow> out = processed_path vid ts)"
proof -
  from process_rows obtain df where df: "process e cs = Inr df" by blast
  show ?thesis
  proof (cases "make_wordcloud e (clean_comments_of ''Positive'' df)
                  (wordcloud_path ''positive'' vid ts) ''Positive''")
    case (Inl x)
    with df show ?thesis by (simp add: run_files_def Let_def)
  next
    case (Inr wp)
    note wp = this
    from make_wordcloud_writes [OF wp]
    have wp': "wp = [] \<or> (\<exists>t. wp = [(wordcloud_path ''positive'' vid ts, WordcloudPng ''Positive'' t)])" .
    show ?thesis
    proof (cases "make_wordcloud e (clean_comments_of ''Negative'' df)
                    (wordcloud_path ''negative'' vid ts) ''Negative''")
      case (Inl x)
      with df wp wp' show ?thesis by (auto simp: run_files_def Let_def)
    next
      case (Inr wn)
      from make_wordcloud_writes [OF Inr]
      have "wn = [] \<or> (\<exists>t. wn = [(wordcloud_path ''negative'' vid ts, WordcloudPng ''Negative'' t)])" .
      with df wp wp' Inr show ?thesis by (auto simp: run_files_def Let_def)
    qed
  qed
qed

lemma run_cases:
  assumes "run e vid mp mc ts = Some r"
  shows "(\<exists>x. fetch_comments (youtube e) vid mp mc = Some (Inl x) \<and> r = ([], Inl x)) \<or>
         (fetch_comments (youtube e) vid mp mc = Some (Inr []) \<and> r = ([], Inl RuntimeError)) \<or>
         (\<exists>cs. cs \<noteq> [] \<and> fetch_comments (youtube e) vid mp mc = Some (Inr cs) \<and>
               r = run_files e vid ts cs)"
  using assms by (auto simp: run_def split: option.splits sum.splits if_splits)

lemma run_processed_tables:
  assumes "run e vid mp mc ts = Some r" and "df \<in> set (processed_tables (fst r))"
  shows "\<exists>cs. cs \<noteq> [] \<and> fetch_comments (youtube e) vid mp mc = Some (Inr cs) \<and>
              process e cs = Inr df \<and> processed_tables (fst r) = [df]"
proof -
  from run_cases [OF assms(1)] assms(2)
  obtain cs where cs: "cs \<noteq> []" "fetch_comments (youtube e) vid mp mc = Some (Inr cs)"
    and r: "r = run_files e vid ts cs" by auto
  from run_files_writes [of e cs vid ts] obtain df' wc where
    df': "process e cs = Inr df'" and
    w: "fst (run_files e vid ts cs) =
       [(raw_path vid ts, RawJson cs), (processed_path vid ts, ProcessedCsv df'),
        (kpi_path vid ts, KpiCsv (make_kpi e vid df'))] @ wc" and
    wc: "\<forall>(p, c)\<in>set wc.
        (\<exists>t. c = WordcloudPng ''Positive'' t \<and> p = wordcloud_path ''positive'' vid ts) \<or>
        (\<exists>t. c = WordcloudPng ''Negative'' t \<and> p = wordcloud_path ''negative'' vid ts)"
    by blast
  from wc have "processed_tables wc = []"
    by (induction wc rule: processed_tables.induct) auto
  with w r have "processed_tables (fst r) = [df']" by simp
  with assms(2) df' cs show ?thesis by auto
qed




section \<open>Claims about the pipeline\<close>

text \<open>
  Claim C1. \<open>vader_label\<close> returns \<^verbatim>\<open>Positive\<close> for a compound score of at least
  \<open>0.05\<close>, \<^verbatim>\<open>Negative\<close> for one of at most \<open>-0.05\<close> and \<^verbatim>\<open>Neutral\<close> between the two;
  and in every processed table that \<open>run\<close> writes, the \<^verbatim>\<open>sentiment_vader\<close> column is
  \<open>vader_label\<close> of the \<^verbatim>\<open>compound\<close> column, row by row.
\<close>

theorem vader_label_thresholds:
  "(0.05 \<le> c \<longrightarrow> vader_label c = ''Positive'') \<and>
   (c \<le> - 0.05 \<longrightarrow> vader_label c = ''Negative'') \<and>
   (- 0.05 < c \<and> c < 0.05 \<longrightarrow> vader_label c = ''Neutral'') \<and>
   (\<forall>r. run e vid mp mc ts = Some r \<longrightarrow>
      (\<forall>df\<in>set (processed_tables (fst r)).
         map sentiment_vader df = map (\<lambda>x. vader_label (compound (score x))) df))"
proof (intro conjI allI impI ballI)
  fix r df
  assume "run e vid mp mc ts = Some r" "df \<in> set (processed_tables (fst r))"
  from run_processed_tables [OF this] obtain cs where "process e cs = Inr df" by blast
  with process_rows [of e cs]
  show "map sentiment_vader df = map (\<lambda>x. vader_label (compound (score x))) df"
    by auto
qed (simp_all add: vader_label_def)

theorem vader_label_thresholds_witness:
  "vader_label 0.05 = ''Positive'' \<and> vader_label (- 0.05) = ''Negative'' \<and>
   vader_label 0.0499 = ''Neutral'' \<and> vader_label (- 0.0499) = ''Neutral'' \<and>
   map_option (\<lambda>r. map (map (\<lambda>x. (compound (score x), sentiment_vader x)))
       (processed_tables (fst r))) (run ex_env ''v'' None 5000 1700000000) =
     Some [[(0.4404, ''Positive''), (- 0.5423, ''Negative'')]]"
  using vader_label_thresholds [where c = "0.05" and e = ex_env and vid = "''v''" and mp = None
      and mc = 5000 and ts = 1700000000]
    vader_label_thresholds [where c = "- 0.05" and e = ex_env and vid = "''v''" and mp = None
      and mc = 5000 and ts = 1700000000]
    vader_label_thresholds [where c = "0.0499" and e = ex_env and vid = "''v''" and mp = None
      and mc = 5000 and ts = 1700000000]
    vader_label_thresholds [where c = "- 0.0499" and e = ex_env and vid = "''v''" and mp = None
      and mc = 5000 and ts = 1700000000]
  by (simp add: ex_run ex_row_fields)

text \<open>
  Claim C4. In every processed table that \<open>run\<close> writes, no \<^verbatim>\<open>comment_id\<close> occurs in
  two rows: the rows are the derived columns added to the fetched records with the
  duplicates (by \<^verbatim>\<open>comment_id\<close>, first one kept) dropped. A run that returns a path
  has written a processed table at that path.
\<close>

theorem processed_table_deduplicated:
  assumes "run e vid mp mc ts = Some r"
  shows "(\<forall>df\<in>set (processed_tables (fst r)).
           distinct (map (\<lambda>x. comment_id (base x)) df) \<and>
           (\<exists>cs. fetch_comments (youtube e) vid mp mc = Some (Inr cs) \<and>
                 map base df = drop_duplicates comment_id cs \<and>
                 process e cs = Inr df)) \<and>
         (\<forall>out. snd r = Inr out \<longrightarrow> (\<exists>df. (out, ProcessedCsv df) \<in> set (fst r)))"
proof (intro conjI ballI allI impI)
  fix df assume "df \<in> set (processed_tables (fst r))"
  from run_processed_tables [OF assms this] obtain cs where
    cs: "fetch_comments (youtube e) vid mp mc = Some (Inr cs)" "process e cs = Inr df"
    by blast
  with process_rows [of e cs] have b: "map base df = drop_duplicates comment_id cs" by simp
  have "map (\<lambda>x. comment_id (base x)) df = map comment_id (map base df)" by simp
  with b drop_duplicates_distinct [of comment_id cs]
  show "distinct (map (\<lambda>x. comment_id (base x)) df)" by simp
  from cs b show "\<exists>cs. fetch_comments (youtube e) vid mp mc = Some (Inr cs) \<and>
                 map base df = drop_duplicates comment_id cs \<and> process e cs = Inr df"
    by blast
next
  fix out assume out: "snd r = Inr out"
  with run_cases [OF assms] obtain cs where r: "r = run_files e vid ts cs" by auto
  from run_files_writes [of e cs vid ts] out r
  show "\<exists>df. (out, ProcessedCsv df) \<in> set (fst r)" by auto
qed

theorem processed_table_deduplicated_witness:
  "map_option (map_sum id (map comment_id)) (fetch_comments (youtube ex_env) ''v'' None 5000) =
     Some (Inr [Some ''c1'', Some ''c2'', Some ''c1'']) \<and>
   map_option (\<lambda>r. map (map (\<lambda>x. comment_id (base x))) (processed_tables (fst r)))
       (run ex_env ''v'' None 5000 1700000000) = Some [[Some ''c1'', Some ''c2'']] \<and>
   map_option snd (run ex_env ''v'' None 5000 1700000000) =
     Some (Inr [''data'', ''processed'', ''processed_v_1700000000.csv''])"
proof -
  have "youtube ex_env = ex_api" by (simp add: ex_env_def)
  with processed_table_deduplicated [of ex_env "''v''" None 5000 1700000000
      "the (run ex_env ''v'' None 5000 1700000000)"]
  show ?thesis
    by (simp add: ex_run ex_fetch ex_row_fields ex_comment_fields ex_paths)
qed

text \<open>
  Claim C10. If \<open>fetch_comments\<close> returns the empty list, \<open>run\<close> raises
  \<^verbatim>\<open>RuntimeError\<close> and has written no file.
\<close>

theorem run_raises_before_writing:
  "fetch_comments (youtube e) vid mp mc = Some (Inr []) \<Longrightarrow>
   run e vid mp mc ts = Some ([], Inl RuntimeError)"
  by (simp add: run_def)

theorem run_raises_before_writing_witness:
  "fetch_comments (youtube ex_env_down) ''v'' None 5000 = Some (Inr []) \<and>
   run ex_env_down ''v'' None 5000 1700000000 = Some ([], Inl RuntimeError)"
  using run_raises_before_writing [of ex_env_down "''v''" None 5000 1700000000]
  by (simp add: ex_env_down_def ex_env_def fetch_eval ex_eval)

text \<open>
  Claim C6, as amended. The path of every file that \<open>run\<close> writes is determined by the
  kind of file, the video id and the clock value \<open>ts\<close> read at the start of the run: raw
  JSON under \<^verbatim>\<open>data/raw\<close>, the processed CSV under \<^verbatim>\<open>data/processed\<close>, the KPI CSV and the
  wordcloud PNGs under \<^verbatim>\<open>data/outputs\<close>, each name carrying the video id and \<open>ts\<close>. So
  two invocations with the same video id that read the same clock value write files of
  the same kind to the same path and return the same path, whatever the platform and the
  libraries do.
\<close>

theorem run_output_paths:
  assumes "run e1 vid mp mc ts = Some r1" and "run e2 vid mp mc ts = Some r2"
  shows "(\<forall>(p1, c1)\<in>set (fst r1). \<forall>(p2, c2)\<in>set (fst r2).
            file_kind c1 = file_kind c2 \<longrightarrow> p1 = p2) \<and>
         (\<forall>(p, c)\<in>set (fst r1).
            p = (case c of
                   RawJson cs \<Rightarrow>
                     [''data'', ''raw'', ''comments_'' @ vid @ ''_'' @ str_int ts @ ''.json'']
                 | ProcessedCsv df \<Rightarrow>
                     [''data'', ''processed'', ''processed_'' @ vid @ ''_'' @ str_int ts @ ''.csv'']
                 | KpiCsv k \<Rightarrow>
                     [''data'', ''outputs'', ''kpi_'' @ vid @ ''_'' @ str_int ts @ ''.csv'']
                 | WordcloudPng label text \<Rightarrow>
                     [''data'', ''outputs'',
                      (if label = ''Positive'' then ''wordcloud_positive_''
                       else ''wordcloud_negative_'') @ vid @ ''_'' @ str_int ts @ ''.png''])) \<and>
         (\<forall>o1 o2. snd r1 = Inr o1 \<and> snd r2 = Inr o2 \<longrightarrow> o1 = o2)"
proof -
  let ?path = "\<lambda>c. (case c of
                   RawJson cs \<Rightarrow>
                     [''data'', ''raw'', ''comments_'' @ vid @ ''_'' @ str_int ts @ ''.json'']
                 | ProcessedCsv df \<Rightarrow>
                     [''data'', ''processed'', ''processed_'' @ vid @ ''_'' @ str_int ts @ ''.csv'']
                 | KpiCsv k \<Rightarrow>
                     [''data'', ''outputs'', ''kpi_'' @ vid @ ''_'' @ str_int ts @ ''.csv'']
                 | WordcloudPng label text \<Rightarrow>
                     [''data'', ''outputs'',
                      (if label = ''Positive'' then ''wordcloud_positive_''
                       else ''wordcloud_negative_'') @ vid @ ''_'' @ str_int ts @ ''.png''])"
  have paths: "(\<forall>(p, c)\<in>set (fst r). p = ?path c) \<and>
               (\<forall>out. snd r = Inr out \<longrightarrow> out = processed_path vid ts)"
    if "run e vid mp mc ts = Some r" for e r
  proof -
    from run_cases [OF that] consider "fst r = []" "\<exists>x. snd r = Inl x"
      | cs where "r = run_files e vid ts cs" by auto
    then show ?thesis
    proof cases
      case 1
      then show ?thesis by auto
    next
      case 2
      from run_files_writes [of e cs vid ts] 2 obtain df wc where
        w: "fst r = [(raw_path vid ts, RawJson cs), (processed_path vid ts, ProcessedCsv df),
                     (kpi_path vid ts, KpiCsv (make_kpi e vid df))] @ wc" and
        wc: "\<forall>(p, c)\<in>set wc.
          (\<exists>t. c = WordcloudPng ''Positive'' t \<and> p = wordcloud_path ''positive'' vid ts) \<or>
          (\<exists>t. c = WordcloudPng ''Negative'' t \<and> p = wordcloud_path ''negative'' vid ts)" and
        out: "\<forall>out. snd r = Inr out \<longrightarrow> out = processed_path vid ts"
        by auto
      have "p = ?path c" if "(p, c) \<in> set wc" for p c
      proof -
        from wc that consider t where "c = WordcloudPng ''Positive'' t"
            "p = wordcloud_path ''positive'' vid ts"
          | t where "c = WordcloudPng ''Negative'' t" "p = wordcloud_path ''negative'' vid ts"
          by blast
        then show ?thesis
          by cases (simp_all add: wordcloud_path_def OUT_DIR_def)
      qed
      moreover have "raw_path vid ts = ?path (RawJson cs)"
        by (simp add: raw_path_def RAW_DIR_def)
      moreover have "processed_path vid ts = ?path (ProcessedCsv df)"
        by (simp add: processed_path_def processed_name_def PROC_DIR_def)
      moreover have "kpi_path vid ts = ?path (KpiCsv (make_kpi e vid df))"
        by (simp add: kpi_path_def OUT_DIR_def)
      ultimately have "\<forall>(p, c)\<in>set (fst r). p = ?path c"
        unfolding w by (simp only: set_append set_simps) blast
      with out show ?thesis by blast
    qed
  qed
  have kind: "file_kind c1 = file_kind c2 \<Longrightarrow> ?path c1 = ?path c2" for c1 c2
    by (cases c1; cases c2) auto
  from paths [OF assms(1)] have p1: "\<forall>(p, c)\<in>set (fst r1). p = ?path c"
    and o1: "\<forall>out. snd r1 = Inr out \<longrightarrow> out = processed_path vid ts" by blast+
  from paths [OF assms(2)] have p2: "\<forall>(p, c)\<in>set (fst r2). p = ?path c"
    and o2: "\<forall>out. snd r2 = Inr out \<longrightarrow> out = processed_path vid ts" by blast+
  have "\<forall>(p1, c1)\<in>set (fst r1). \<forall>(p2, c2)\<in>set (fst r2).
            file_kind c1 = file_kind c2 \<longrightarrow> p1 = p2"
  proof (intro ballI, clarify)
    fix p1 c1 p2 c2
    assume "(p1, c1) \<in> set (fst r1)" "(p2, c2) \<in> set (fst r2)" "file_kind c1 = file_kind c2"
    with p1 p2 kind [of c1 c2] show "p1 = p2" by fast
  qed
  moreover from o1 o2 have "\<forall>o1 o2. snd r1 = Inr o1 \<and> snd r2 = Inr o2 \<longrightarrow> o1 = o2" by auto
  ultimately show ?thesis using p1 by blast
qed


theorem run_output_paths_witness:
  "map_option (\<lambda>r. map fst (fst r)) (run ex_env ''v'' None 5000 1700000000) =
     Some [[''data'', ''raw'', ''comments_v_1700000000.json''],
           [''data'', ''processed'', ''processed_v_1700000000.csv''],
           [''data'', ''outputs'', ''kpi_v_1700000000.csv''],
           [''data'', ''outputs'', ''wordcloud_positive_v_1700000000.png''],
           [''data'', ''outputs'', ''wordcloud_negative_v_1700000000.png'']] \<and>
   map_option (\<lambda>r. map fst (fst r)) (run ex_env_short ''v'' None 5000 1700000000) =
     Some [[''data'', ''raw'', ''comments_v_1700000000.json''],
           [''data'', ''processed'', ''processed_v_1700000000.csv''],
           [''data'', ''outputs'', ''kpi_v_1700000000.csv''],
           [''data'', ''outputs'', ''wordcloud_positive_v_1700000000.png'']] \<and>
   map_option snd (run ex_env ''v'' None 5000 1700000000) =
     Some (Inr [''data'', ''processed'', ''processed_v_1700000000.csv'']) \<and>
   map_option snd (run ex_env_short ''v'' None 5000 1700000000) =
     Some (Inr [''data'', ''processed'', ''processed_v_1700000000.csv''])"
  using run_output_paths [where ?e1.0 = ex_env and ?e2.0 = ex_env_short and vid = "''v''"
      and mp = None and mc = 5000 and ts = 1700000000
      and ?r1.0 = "the (run ex_env ''v'' None 5000 1700000000)"
      and ?r2.0 = "the (run ex_env_short ''v'' None 5000 1700000000)"]
  by (simp add: ex_run ex_run_short ex_paths)

text \<open>
  Claim C6 as stated fails: the names carry the clock value. Two invocations for the
  same video id, page limit and comment cap, one second apart, write five files each and
  no name is shared.
\<close>

theorem run_names_carry_the_clock:
  "map_option (\<lambda>r. map fst (fst r)) (run ex_env ''v'' None 5000 1700000000) =
     Some [[''data'', ''raw'', ''comments_v_1700000000.json''],
           [''data'', ''processed'', ''processed_v_1700000000.csv''],
           [''data'', ''outputs'', ''kpi_v_1700000000.csv''],
           [''data'', ''outputs'', ''wordcloud_positive_v_1700000000.png''],
           [''data'', ''outputs'', ''wordcloud_negative_v_1700000000.png'']] \<and>
   map_option (\<lambda>r. map fst (fst r)) (run ex_env ''v'' None 5000 1700000001) =
     Some [[''data'', ''raw'', ''comments_v_1700000001.json''],
           [''data'', ''processed'', ''processed_v_1700000001.csv''],
           [''data'', ''outputs'', ''kpi_v_1700000001.csv''],
           [''data'', ''outputs'', ''wordcloud_positive_v_1700000001.png''],
           [''data'', ''outputs'', ''wordcloud_negative_v_1700000001.png'']]"
  by (simp add: ex_run ex_paths)

section \<open>The readers' choice of file\<close>

lemma sorted_le_last: "sorted xs \<Longrightarrow> x \<in> set xs \<Longrightarrow> x \<le> last xs"
  by (induction xs) auto

text \<open>The file that a reader loads is a matching file of the listing whose name sorts last.\<close>

lemma load_latest_processed_sorts_last:
  assumes "load_latest_processed listing = Some f"
  shows "f \<in> set listing \<and> is_processed_csv f \<and>
         (\<forall>g\<in>set listing. is_processed_csv g \<longrightarrow> g \<le> f)"
proof -
  let ?files = "sort (filter is_processed_csv listing)"
  from assms have ne: "?files \<noteq> []" and f: "f = last ?files"
    by (auto simp: load_latest_processed_def Let_def split: if_splits)
  from ne have "last ?files \<in> set ?files" by (rule last_in_set)
  with f have mem: "f \<in> set listing \<and> is_processed_csv f" by simp
  have "g \<le> f" if "g \<in> set listing" "is_processed_csv g" for g
  proof -
    from that have "g \<in> set ?files" by simp
    with sorted_sort [of "filter is_processed_csv listing"] show ?thesis
      unfolding f by (rule sorted_le_last)
  qed
  with mem show ?thesis by blast
qed

text \<open>
  Claim C7 (the code departs from it). Two videos are fetched, at 1700000000 and
  1700000100, and the second one is fetched again at 1700000200. Every reader then
  loads the table of the first video, written first: its id sorts behind the other id,
  and the name is compared before the time stamp is.
\<close>

theorem readers_load_the_other_video:
  "load_latest_processed
     [processed_name ''kJQP7kiw5Fk'' 1700000000,
      processed_name ''dQw4w9WgXcQ'' 1700000100,
      processed_name ''dQw4w9WgXcQ'' 1700000200] =
   Some ''processed_kJQP7kiw5Fk_1700000000.csv'' \<and>
   processed_name ''dQw4w9WgXcQ'' 1700000200 = ''processed_dQw4w9WgXcQ_1700000200.csv'' \<and>
   last (processed_path ''dQw4w9WgXcQ'' 1700000200) = processed_name ''dQw4w9WgXcQ'' 1700000200"
  by (simp add: load_latest_processed_def processed_name_def processed_path_def PROC_DIR_def
      str_int_def is_processed_csv_def suffix_to_prefix)

lemma reader_fallbacks:
  "(\<forall>df. read_csv f True = Inr df \<longrightarrow>
      check_processed_read read_csv f = (Inr df, [(f, True)]) \<and>
      app_streamlit_read read_csv fix_dates f = (Inr df, [(f, True)])) \<and>
   (\<forall>e. read_csv f True = Inl e \<longrightarrow>
      check_processed_read read_csv f = (read_csv f False, [(f, True), (f, False)]) \<and>
      app_streamlit_read read_csv fix_dates f =
        (map_sum (\<lambda>x. x) fix_dates (read_csv f False), [(f, True), (f, False)])) \<and>
   analyze_eval_read read_csv f = (read_csv f True, [(f, True)])"
proof (intro conjI allI impI)
  fix e assume e: "read_csv f True = Inl e"
  show "app_streamlit_read read_csv fix_dates f =
        (map_sum (\<lambda>x. x) fix_dates (read_csv f False), [(f, True), (f, False)])"
    by (cases "read_csv f False") (simp_all add: app_streamlit_read_def is_Exception_def e)
qed (simp_all add: check_processed_read_def app_streamlit_read_def analyze_eval_read_def
    is_Exception_def)

section \<open>Claim about failure recovery\<close>

text \<open>
  Claim C5, as amended. Failure recovery. (1) The comment-threads call, at any turn that
  the loop reaches: a call that returns is not repeated; one that raises something other
  than \<^verbatim>\<open>HttpError\<close> is not retried and the exception leaves \<open>fetch_comments\<close>; one that
  raises \<^verbatim>\<open>HttpError\<close> is followed by a sleep of five seconds and exactly one more
  request with the same page token, and if that one raises too, the loop ends and
  \<open>fetch_comments\<close> returns the comments accumulated so far instead of raising.
  (2) \<open>safe_lang\<close> answers \<^verbatim>\<open>unknown\<close> when the detector raises. (3) The diagnostic
  script and the dashboard, when the read with date parsing raises, read the file once
  more without date parsing, and an exception of that second read is not caught; when
  the first read returns they read once. The evaluation script reads once and catches
  nothing.
\<close>

theorem failure_recovery_paths:
  assumes reach: "after_turns yt vid mp mc n initial_state = Some s"
  shows
    "(\<forall>resp. yt (n_requests (trace s)) vid (token s) = Returns resp \<longrightarrow>
        request_page yt vid (token s) (trace s) = (Got resp, trace s @ [Request (token s)])) \<and>
     (\<forall>e. yt (n_requests (trace s)) vid (token s) = Raises e \<and> e \<noteq> HttpError \<longrightarrow>
        request_page yt vid (token s) (trace s) = (Raised e, trace s @ [Request (token s)]) \<and>
        fetch_comments yt vid mp mc = Some (Inl e)) \<and>
     (yt (n_requests (trace s)) vid (token s) = Raises HttpError \<longrightarrow>
        snd (request_page yt vid (token s) (trace s)) =
          trace s @ [Request (token s), Sleep 5000, Request (token s)] \<and>
        (\<forall>resp. yt (Suc (n_requests (trace s))) vid (token s) = Returns resp \<longrightarrow>
           fst (request_page yt vid (token s) (trace s)) = Got resp) \<and>
        (\<forall>e2. yt (Suc (n_requests (trace s))) vid (token s) = Raises e2 \<longrightarrow>
           fetch_loop yt vid mp mc initial_state =
             Some (None, s\<lparr>trace := trace s @ [Request (token s), Sleep 5000, Request (token s)]\<rparr>) \<and>
           fetch_comments yt vid mp mc = Some (Inr (comments s)))) \<and>
     (\<forall>e. detector t = Inl e \<longrightarrow> safe_lang detector t = Inr ''unknown'') \<and>
     (\<forall>df. read_csv f True = Inr df \<longrightarrow>
        check_processed_read read_csv f = (Inr df, [(f, True)]) \<and>
        app_streamlit_read read_csv fix_dates f = (Inr df, [(f, True)])) \<and>
     (\<forall>e. read_csv f True = Inl e \<longrightarrow>
        check_processed_read read_csv f = (read_csv f False, [(f, True), (f, False)]) \<and>
        app_streamlit_read read_csv fix_dates f =
          (map_sum (\<lambda>x. x) fix_dates (read_csv f False), [(f, True), (f, False)])) \<and>
     analyze_eval_read read_csv f = (read_csv f True, [(f, True)])"
proof -
  have "\<forall>e. detector t = Inl e \<longrightarrow> safe_lang detector t = Inr ''unknown''"
    by (auto simp: safe_lang_def try_except_def is_Exception_def)
  with retry_on_http_error [OF reach] reader_fallbacks [of read_csv f fix_dates]
  show ?thesis by (intro conjI) blast+
qed

theorem failure_recovery_paths_witness:
  "after_turns api_then_down ''v'' None 5000 1 initial_state =
     Some \<lparr>comments = page_comments ''v'' ex_page, token = Some ''T'', page = 1,
           trace = [Request None, Sleep 100]\<rparr> \<and>
   api_then_down 1 ''v'' (Some ''T'') = Raises HttpError \<and>
   api_then_down 2 ''v'' (Some ''T'') = Raises HttpError \<and>
   fetch_loop api_then_down ''v'' None 5000 initial_state =
     Some (None, \<lparr>comments = page_comments ''v'' ex_page, token = Some ''T'', page = 1,
       trace = [Request None, Sleep 100, Request (Some ''T''), Sleep 5000, Request (Some ''T'')]\<rparr>) \<and>
   fetch_comments api_then_down ''v'' None 5000 = Some (Inr (page_comments ''v'' ex_page)) \<and>
   after_turns api_broken ''v'' None 5000 0 initial_state = Some initial_state \<and>
   fetch_comments api_broken ''v'' None 5000 = Some (Inl OtherException) \<and>
   safe_lang (\<lambda>t. Inl LangDetectException) (ustr ''abc'') = Inr ''unknown'' \<and>
   ex_read_csv ''processed_v_1700000000.csv'' True = Inl ValueError \<and>
   check_processed_read ex_read_csv ''processed_v_1700000000.csv'' =
     (Inr [ex_row ''c1'' ''good''],
      [(''processed_v_1700000000.csv'', True), (''processed_v_1700000000.csv'', False)]) \<and>
   app_streamlit_read ex_read_fails (\<lambda>df. df) ''processed_v_1700000000.csv'' =
     (Inl OtherException,
      [(''processed_v_1700000000.csv'', True), (''processed_v_1700000000.csv'', False)]) \<and>
   analyze_eval_read ex_read_csv ''processed_v_1700000000.csv'' =
     (Inl ValueError, [(''processed_v_1700000000.csv'', True)])"
  using failure_recovery_paths [where yt = api_then_down and vid = "''v''" and mp = None
      and mc = 5000 and n = 1
      and s = "\<lparr>comments = page_comments ''v'' ex_page, token = Some ''T'', page = 1,
           trace = [Request None, Sleep 100]\<rparr>"
      and detector = "\<lambda>t. Inl LangDetectException" and t = "ustr ''abc''"
      and read_csv = ex_read_csv and f = "''processed_v_1700000000.csv''"
      and fix_dates = "\<lambda>df. df"]
    failure_recovery_paths [where yt = api_broken and vid = "''v''" and mp = None
      and mc = 5000 and n = 0 and s = initial_state
      and detector = "\<lambda>t. Inl LangDetectException" and t = "ustr ''abc''"
      and read_csv = ex_read_fails and f = "''processed_v_1700000000.csv''"
      and fix_dates = "\<lambda>df. df"]
  by (simp add: fetch_eval ex_eval ex_read_csv_def ex_read_fails_def)

text \<open>
  Claim C5 as stated fails: the retry is not the only recovery from a failure. A
  detector that raises is answered by \<^verbatim>\<open>unknown\<close>, and the diagnostic script and the
  dashboard, given a file whose read with date parsing raises, read it a second time and
  go on with the table.
\<close>

theorem recovery_outside_the_retry:
  "safe_lang (\<lambda>t. Inl LangDetectException) (ustr ''abc'') = Inr ''unknown'' \<and>
   ex_read_csv ''processed_v_1700000000.csv'' True = Inl ValueError \<and>
   check_processed_read ex_read_csv ''processed_v_1700000000.csv'' =
     (Inr [ex_row ''c1'' ''good''],
      [(''processed_v_1700000000.csv'', True), (''processed_v_1700000000.csv'', False)]) \<and>
   app_streamlit_read ex_read_csv (\<lambda>df. df) ''processed_v_1700000000.csv'' =
     (Inr [ex_row ''c1'' ''good''],
      [(''processed_v_1700000000.csv'', True), (''processed_v_1700000000.csv'', False)])"
  by (simp add: safe_lang_def try_except_def is_Exception_def strip_def lstrip_def rstrip_def
      ustr_def is_space_def check_processed_read_def app_streamlit_read_def ex_read_csv_def)

end
